theory Spec2Isabelle
  imports Complex_Main
begin

section \<open>Data model\<close>

text \<open>
  The BasePaint tracker is a TypeScript front end.  Two variants of the marketplace hook
  \<^verbatim>\<open>useOpenSea\<close> exist in the repository: one that talks to the OpenSea REST API
  directly and one that goes through the \<^verbatim>\<open>opensea-js\<close> SDK.  Both are embedded
  here.

  JavaScript numbers that carry prices are idealised as rationals: no property below
  performs arithmetic on them.  \<^verbatim>\<open>undefined\<close> is \<open>None\<close>.  A number that may be
  \<^verbatim>\<open>NaN\<close> (the result of \<^verbatim>\<open>parseInt\<close>) is an \<open>int option\<close>.
\<close>

type_synonym number = rat

text \<open>
  \<^verbatim>\<open>CanvasItem\<close>: the interface of \<^verbatim>\<open>types.ts\<close> together with the two fields
  that the hooks attach (\<^verbatim>\<open>bestOfferOrderHash\<close>, \<^verbatim>\<open>bestOfferProtocolAddress\<close>).
  The field \<^verbatim>\<open>id\<close> is written \<open>id'\<close>.
\<close>

record CanvasItem =
  id' :: string
  day :: "int option"
  imageUrl :: string
  lastSale :: number
  listPrice :: "number option"
  bestOffer :: number
  isListed :: "bool option"
  bestOfferOrderHash :: "string option"
  bestOfferProtocolAddress :: "string option"

text \<open>
  A value that a \<^verbatim>\<open>catch\<close> clause may receive.  Anything can be thrown in JavaScript:
  \<open>Nullish\<close> is \<^verbatim>\<open>null\<close> or \<^verbatim>\<open>undefined\<close> (reading a property of it raises a
  \<^verbatim>\<open>TypeError\<close>), \<open>ErrObj code message\<close> an object with these two properties, each
  possibly missing.
\<close>

datatype nullish = JsNull | JsUndefined

datatype js_error = Nullish nullish | ErrObj "int option" "string option"

text \<open>The outcome of awaiting a promise.\<close>

datatype 'a outcome = Resolves 'a | Rejects js_error

text \<open>Truthiness of an optional string: \<^verbatim>\<open>undefined\<close> and \<^verbatim>\<open>''\<close> are falsy.\<close>

fun truthy :: "string option \<Rightarrow> bool" where
  "truthy None = False"
| "truthy (Some s) = (s \<noteq> [])"

section \<open>Marketplace responses\<close>

text \<open>
  What \<^verbatim>\<open>fetch\<close> followed by \<^verbatim>\<open>res.json()\<close> can give: a rejection of either promise
  (\<open>Threw\<close>), a response with \<^verbatim>\<open>res.ok\<close> false (\<open>NotOk\<close>, with the status), or a parsed
  body.
\<close>

datatype 'a response = Threw js_error | NotOk nat | Json 'a

text \<open>
  The price object of a listing or an offer: \<^verbatim>\<open>value\<close> is a decimal string in the
  smallest unit, \<^verbatim>\<open>decimals\<close> a number; either may be missing (\<open>None\<close>).
\<close>

record price_json =
  price_value :: "string option"
  price_decimals :: "nat option"

text \<open>
  \<^verbatim>\<open>ethers.formatUnits\<close> followed by \<^verbatim>\<open>parseFloat\<close> belongs to a library outside the
  repository and is a parameter of the model: \<open>None\<close> when \<^verbatim>\<open>formatUnits\<close> throws.
\<close>

type_synonym units = "string \<Rightarrow> nat \<Rightarrow> number option"

text \<open>
  REST variant.  \<open>listing_price_current\<close> is \<^verbatim>\<open>listing.price?.current\<close>, \<open>offer_price\<close>
  is \<^verbatim>\<open>offer.price\<close>.  A body carries \<^verbatim>\<open>data.listings\<close> or \<^verbatim>\<open>data.offers\<close>, which may
  be missing.
\<close>

record listing_json =
  listing_price_current :: "price_json option"

record offer_json =
  offer_price :: "price_json option"
  order_hash :: "string option"
  protocol_address :: "string option"

text \<open>
  The marketplace as the REST hook sees it.  The first argument is the index of the item
  whose enrichment issues the request, the second the token id put into the URL: every
  request of a run may be answered differently.
\<close>

record rest_market =
  rest_listings :: "nat \<Rightarrow> string \<Rightarrow> listing_json list option response"
  rest_offers :: "nat \<Rightarrow> string \<Rightarrow> offer_json list option response"

text \<open>The results of the two REST helpers.\<close>

record listingData =
  ld_listPrice :: "number option"
  ld_isListed :: bool

record offerData =
  od_bestOffer :: number
  od_orderHash :: "string option"
  od_protocolAddress :: "string option"

definition notListed :: listingData where
  "notListed = \<lparr>ld_listPrice = None, ld_isListed = False\<rparr>"

definition noOffer :: offerData where
  "noOffer = \<lparr>od_bestOffer = 0, od_orderHash = None, od_protocolAddress = None\<rparr>"

text \<open>\<^verbatim>\<open>data.xs?.[0]\<close>\<close>

fun first :: "'a list option \<Rightarrow> 'a option" where
  "first None = None"
| "first (Some []) = None"
| "first (Some (x # xs)) = Some x"

text \<open>
  The body of the \<^verbatim>\<open>try\<close> block of \<^verbatim>\<open>fetchBestListing\<close>: \<open>Inl\<close> is an exception raised
  inside the block, \<open>Inr\<close> a value returned from it.
\<close>

definition fetchBestListing_try :: "units \<Rightarrow> listing_json list option response \<Rightarrow> js_error + listingData" where
  "fetchBestListing_try formatUnits res =
     (case res of
        Threw e \<Rightarrow> Inl e
      | NotOk status \<Rightarrow> Inr notListed
      | Json data \<Rightarrow>
          (case first data of
             None \<Rightarrow> Inr notListed
           | Some listing \<Rightarrow>
               (let raw = (case listing_price_current listing of None \<Rightarrow> None | Some c \<Rightarrow> price_value c);
                    decimals = (case (case listing_price_current listing of None \<Rightarrow> None | Some c \<Rightarrow> price_decimals c) of
                                  None \<Rightarrow> 18 | Some d \<Rightarrow> d)
                in if \<not> truthy raw then Inr notListed
                   else (case formatUnits (the raw) decimals of
                           None \<Rightarrow> Inl (ErrObj None (Some ''invalid BigNumberish value''))
                         | Some p \<Rightarrow> Inr \<lparr>ld_listPrice = Some p, ld_isListed = True\<rparr>))))"

text \<open>\<^verbatim>\<open>fetchBestListing\<close>: the \<^verbatim>\<open>catch\<close> clause turns every exception into "not listed".\<close>

definition fetchBestListing :: "units \<Rightarrow> listing_json list option response \<Rightarrow> listingData" where
  "fetchBestListing formatUnits res =
     (case fetchBestListing_try formatUnits res of Inl e \<Rightarrow> notListed | Inr r \<Rightarrow> r)"

definition fetchBestOffer_try :: "units \<Rightarrow> offer_json list option response \<Rightarrow> js_error + offerData" where
  "fetchBestOffer_try formatUnits res =
     (case res of
        Threw e \<Rightarrow> Inl e
      | NotOk status \<Rightarrow> Inr noOffer
      | Json data \<Rightarrow>
          (case first data of
             None \<Rightarrow> Inr noOffer
           | Some offer \<Rightarrow>
               (let raw = (case offer_price offer of None \<Rightarrow> None | Some c \<Rightarrow> price_value c);
                    decimals = (case (case offer_price offer of None \<Rightarrow> None | Some c \<Rightarrow> price_decimals c) of
                                  None \<Rightarrow> 18 | Some d \<Rightarrow> d)
                in if \<not> truthy raw then Inr noOffer
                   else (case formatUnits (the raw) decimals of
                           None \<Rightarrow> Inl (ErrObj None (Some ''invalid BigNumberish value''))
                         | Some p \<Rightarrow> Inr \<lparr>od_bestOffer = p, od_orderHash = order_hash offer,
                                           od_protocolAddress = protocol_address offer\<rparr>))))"

definition fetchBestOffer :: "units \<Rightarrow> offer_json list option response \<Rightarrow> offerData" where
  "fetchBestOffer formatUnits res =
     (case fetchBestOffer_try formatUnits res of Inl e \<Rightarrow> noOffer | Inr r \<Rightarrow> r)"

text \<open>
  SDK variant.  \<^verbatim>\<open>sdk.api.getBestOffer\<close> and \<^verbatim>\<open>sdk.api.getBestListing\<close> resolve to an
  object (possibly \<^verbatim>\<open>undefined\<close>) or reject; \<open>sdk_price\<close> is \<^verbatim>\<open>x?.price\<close> and
  \<open>sdk_order_hash\<close> is \<^verbatim>\<open>(offer as any).order_hash\<close>.  \<open>sdk_ready\<close> is false when
  \<^verbatim>\<open>buildReadSDK()\<close> throws.
\<close>

record sdk_order_json =
  sdk_price :: "price_json option"
  sdk_order_hash :: "string option"

record sdk_market =
  sdk_ready :: bool
  sdk_bestOffer :: "nat \<Rightarrow> string \<Rightarrow> sdk_order_json option outcome"
  sdk_bestListing :: "nat \<Rightarrow> string \<Rightarrow> sdk_order_json option outcome"

record marketData =
  md_bestOffer :: number
  md_listPrice :: "number option"
  md_isListed :: bool
  md_bestOfferOrderHash :: "string option"

text \<open>
  The condition \<^verbatim>\<open>x?.price?.decimals !== undefined && x?.price?.value\<close> and the
  conversion that follows it; \<open>None\<close> when the condition is false or the conversion throws
  (both leave the variables of \<^verbatim>\<open>fetchTokenMarketData\<close> at their initial values).
\<close>

definition sdk_priceOf :: "units \<Rightarrow> sdk_order_json option outcome \<Rightarrow> (number \<times> string option) option" where
  "sdk_priceOf formatUnits res =
     (case res of
        Rejects e \<Rightarrow> None
      | Resolves None \<Rightarrow> None
      | Resolves (Some x) \<Rightarrow>
          (case sdk_price x of
             None \<Rightarrow> None
           | Some p \<Rightarrow>
               (case price_decimals p of
                  None \<Rightarrow> None
                | Some d \<Rightarrow>
                    if truthy (price_value p)
                    then (case formatUnits (the (price_value p)) d of
                            None \<Rightarrow> None
                          | Some n \<Rightarrow> Some (n, sdk_order_hash x))
                    else None)))"

definition fetchTokenMarketData :: "units \<Rightarrow> sdk_market \<Rightarrow> nat \<Rightarrow> string \<Rightarrow> marketData" where
  "fetchTokenMarketData formatUnits m k tokenId =
     (if \<not> sdk_ready m
      then \<lparr>md_bestOffer = 0, md_listPrice = None, md_isListed = False, md_bestOfferOrderHash = None\<rparr>
      else
        (let (bestOffer, bestOfferOrderHash) =
               (case sdk_priceOf formatUnits (sdk_bestOffer m k tokenId) of
                  None \<Rightarrow> (0, None) | Some (n, h) \<Rightarrow> (n, h));
             (listPrice, isListed) =
               (case sdk_priceOf formatUnits (sdk_bestListing m k tokenId) of
                  None \<Rightarrow> (None, False) | Some (n, h) \<Rightarrow> (Some n, True))
         in \<lparr>md_bestOffer = bestOffer, md_listPrice = listPrice, md_isListed = isListed,
             md_bestOfferOrderHash = bestOfferOrderHash\<rparr>))"

section \<open>The enrichment pipeline\<close>

text \<open>
  The two variants of \<^verbatim>\<open>enrichWithMarketData\<close> have the same loop and differ in the
  constant \<^verbatim>\<open>BATCH\<close> and in the body of the per-item task.
\<close>

datatype variant = REST rest_market | SDK sdk_market

fun BATCH :: "variant \<Rightarrow> nat" where
  "BATCH (REST m) = 4"
| "BATCH (SDK m) = 5"

text \<open>
  The assignment that ends the task for index \<open>k\<close>.  \<open>item\<close> is the element the task
  read when \<^verbatim>\<open>map\<close> started it (REST: \<^verbatim>\<open>enriched[i + idx]\<close> before the first
  \<^verbatim>\<open>await\<close>; SDK: the element of the slice \<^verbatim>\<open>batch\<close>); \<open>current\<close> is
  \<^verbatim>\<open>enriched[i + idx]\<close> at the time of the assignment, which only the SDK variant
  reads.
\<close>

fun complete :: "units \<Rightarrow> variant \<Rightarrow> nat \<Rightarrow> CanvasItem \<Rightarrow> CanvasItem \<Rightarrow> CanvasItem" where
  "complete formatUnits (REST m) k item current =
     (let listingData = fetchBestListing formatUnits (rest_listings m k (id' item));
          offerData = fetchBestOffer formatUnits (rest_offers m k (id' item))
      in item\<lparr>listPrice := ld_listPrice listingData,
               isListed := Some (ld_isListed listingData),
               bestOffer := od_bestOffer offerData,
               bestOfferOrderHash := od_orderHash offerData,
               bestOfferProtocolAddress := od_protocolAddress offerData\<rparr>)"
| "complete formatUnits (SDK m) k item current =
     (let data = fetchTokenMarketData formatUnits m k (id' item)
      in current\<lparr>bestOffer := md_bestOffer data,
                  listPrice := md_listPrice data,
                  isListed := Some (md_isListed data),
                  bestOfferOrderHash := md_bestOfferOrderHash data\<rparr>)"

text \<open>
  \<^verbatim>\<open>Promise.all\<close> over the tasks of a batch: the tasks are started in index order and
  finish in an order that the code does not control.  \<open>pick\<close> is the scheduler: from the
  tasks still pending it chooses the next one to finish.  Every order is the choice of
  some \<open>pick\<close>.
\<close>

function completionOrder :: "(nat list \<Rightarrow> nat) \<Rightarrow> nat list \<Rightarrow> nat list" where
  "completionOrder pick pending =
     (if pending = [] then []
      else let j = pick pending mod length pending
           in pending ! j # completionOrder pick (take j pending @ drop (Suc j) pending))"
  by pat_completeness auto
termination
  by (relation "measure (\<lambda>(pick, pending). length pending)") (auto simp: less_Suc_eq_le Suc_le_eq)

declare completionOrder.simps [simp del]

text \<open>Two schedulers: first started, first finished; and last started, first finished.\<close>

definition firstPending :: "nat list \<Rightarrow> nat" where
  "firstPending pending = 0"

definition lastPending :: "nat list \<Rightarrow> nat" where
  "lastPending pending = length pending - 1"

text \<open>\<^verbatim>\<open>xs.slice(i, j)\<close> for \<open>i \<le> j\<close>.\<close>

definition slice :: "nat \<Rightarrow> nat \<Rightarrow> 'a list \<Rightarrow> 'a list" where
  "slice i j xs = take (j - i) (drop i xs)"

text \<open>
  What an observer of a run sees: the start of the task for an index (the first of its
  requests is issued then), the write-back of its result, and a call of \<^verbatim>\<open>onProgress\<close>
  with a copy of the working array.  \<^verbatim>\<open>map\<close> starts every task of a batch before any of
  them can finish.
\<close>

datatype event = Start nat | Done nat | Progress "CanvasItem list"

text \<open>
  One batch: the writes \<^verbatim>\<open>enriched[i + idx] = {...}\<close> in completion order.  Every index
  written is inside the array (\<open>batch_tasks\<close> below), so the list update never meets the
  case in which JavaScript would extend the array.
\<close>

definition runBatch :: "units \<Rightarrow> variant \<Rightarrow> nat \<Rightarrow> CanvasItem list \<Rightarrow> nat list \<Rightarrow> CanvasItem list \<Rightarrow> CanvasItem list" where
  "runBatch formatUnits v i batch order enriched =
     fold (\<lambda>k e. e[k := complete formatUnits v k (batch ! (k - i)) (e ! k)]) order enriched"

lemma length_runBatch [simp]: "length (runBatch formatUnits v i batch order enriched) = length enriched"
  unfolding runBatch_def by (induction order arbitrary: enriched) auto

lemma BATCH_pos [simp]: "0 < BATCH v"
  by (cases v) auto

text \<open>
  The \<^verbatim>\<open>for\<close> loop.  \<open>onProgress\<close> tells whether the caller passed a callback; the
  callbacks of the repository only store the snapshot.
\<close>

function enrichLoop :: "units \<Rightarrow> variant \<Rightarrow> (nat list \<Rightarrow> nat) \<Rightarrow> bool \<Rightarrow> nat \<Rightarrow> CanvasItem list \<Rightarrow> event list \<times> CanvasItem list" where
  "enrichLoop formatUnits v pick onProgress i enriched =
     (if i < length enriched then
        (let batch = slice i (i + BATCH v) enriched;
             tasks = map (\<lambda>idx. i + idx) [0..<length batch];
             order = completionOrder pick tasks;
             enriched' = runBatch formatUnits v i batch order enriched;
             rest = enrichLoop formatUnits v pick onProgress (i + BATCH v) enriched'
         in (map Start tasks @ map Done order @ (if onProgress then [Progress enriched'] else []) @ fst rest,
             snd rest))
      else ([], enriched))"
  by pat_completeness auto
termination
  by (relation "measure (\<lambda>(formatUnits, v, pick, onProgress, i, enriched). length enriched - i)")
     (auto intro!: diff_less_mono2)

declare enrichLoop.simps [simp del]

text \<open>
  \<^verbatim>\<open>enrichWithMarketData(items, onProgress)\<close>: the trace of the run and the array it
  returns.  \<^verbatim>\<open>[...items]\<close> copies the array, so the loop works on a list equal to the
  input.  The flag \<^verbatim>\<open>isLoadingOffers\<close>, set before the loop and cleared after it, plays no
  part in the properties below and is left out.
\<close>

definition enrichWithMarketData :: "units \<Rightarrow> variant \<Rightarrow> (nat list \<Rightarrow> nat) \<Rightarrow> bool \<Rightarrow> CanvasItem list \<Rightarrow> event list \<times> CanvasItem list" where
  "enrichWithMarketData formatUnits v pick onProgress items =
     enrichLoop formatUnits v pick onProgress 0 items"

text \<open>The snapshots handed to the callback, in order.\<close>

fun snapshots :: "event list \<Rightarrow> CanvasItem list list" where
  "snapshots [] = []"
| "snapshots (Progress s # evs) = s # snapshots evs"
| "snapshots (e # evs) = snapshots evs"

text \<open>
  The item that the task for index \<open>k\<close> writes when nothing else has touched the slot:
  the item with the market data of its own requests.
\<close>

definition enrichItem :: "units \<Rightarrow> variant \<Rightarrow> nat \<Rightarrow> CanvasItem \<Rightarrow> CanvasItem" where
  "enrichItem formatUnits v k item = complete formatUnits v k item item"

text \<open>
  An entry \<open>r\<close> is annotated with the market data of the input item \<open>item\<close> at index
  \<open>k\<close>: it is still that token, and its market fields hold what the marketplace
  answered to the requests for the token.  REST: the price and the flag of
  \<^verbatim>\<open>fetchBestListing\<close> and the offer, order hash and protocol address of
  \<^verbatim>\<open>fetchBestOffer\<close>.  SDK: the four fields of \<^verbatim>\<open>fetchTokenMarketData\<close>.
\<close>

fun annotated :: "units \<Rightarrow> variant \<Rightarrow> nat \<Rightarrow> CanvasItem \<Rightarrow> CanvasItem \<Rightarrow> bool" where
  "annotated formatUnits (REST m) k item r =
     (id' r = id' item \<and>
      listPrice r = ld_listPrice (fetchBestListing formatUnits (rest_listings m k (id' item))) \<and>
      isListed r = Some (ld_isListed (fetchBestListing formatUnits (rest_listings m k (id' item)))) \<and>
      bestOffer r = od_bestOffer (fetchBestOffer formatUnits (rest_offers m k (id' item))) \<and>
      bestOfferOrderHash r = od_orderHash (fetchBestOffer formatUnits (rest_offers m k (id' item))) \<and>
      bestOfferProtocolAddress r = od_protocolAddress (fetchBestOffer formatUnits (rest_offers m k (id' item))))"
| "annotated formatUnits (SDK m) k item r =
     (id' r = id' item \<and>
      bestOffer r = md_bestOffer (fetchTokenMarketData formatUnits m k (id' item)) \<and>
      listPrice r = md_listPrice (fetchTokenMarketData formatUnits m k (id' item)) \<and>
      isListed r = Some (md_isListed (fetchTokenMarketData formatUnits m k (id' item))) \<and>
      bestOfferOrderHash r = md_bestOfferOrderHash (fetchTokenMarketData formatUnits m k (id' item)))"

section \<open>Owned tokens\<close>

text \<open>
  \<^verbatim>\<open>parseInt(tokenId, 10)\<close>: leading white space is skipped, a sign is accepted, the
  longest prefix of decimal digits is read, and the result is \<^verbatim>\<open>NaN\<close> (\<open>None\<close>) when
  there is no digit.  The result here is the exact integer; JavaScript rounds it to a
  double, which makes a difference only above \<open>2 ^ 53\<close>, far beyond any day number.
\<close>

definition isDigit :: "char \<Rightarrow> bool" where
  "isDigit c = (48 \<le> (of_char c :: nat) \<and> (of_char c :: nat) \<le> 57)"

definition isSpace :: "char \<Rightarrow> bool" where
  "isSpace c = ((of_char c :: nat) \<in> {9, 10, 11, 12, 13, 32})"

definition digitsToNat :: "string \<Rightarrow> nat" where
  "digitsToNat ds = fold (\<lambda>c n. 10 * n + (of_char c - 48)) ds 0"

definition parseInt :: "string \<Rightarrow> int option" where
  "parseInt s =
     (let t = dropWhile isSpace s;
          negative = (case t of [] \<Rightarrow> False | c # r \<Rightarrow> c = CHR ''-'');
          u = (case t of [] \<Rightarrow> [] | c # r \<Rightarrow> if c = CHR ''-'' \<or> c = CHR ''+'' then r else t);
          ds = takeWhile isDigit u
      in if ds = [] then None
         else Some (if negative then - int (digitsToNat ds) else int (digitsToNat ds)))"

text \<open>
  A number inside a template literal: the decimal digits of an integer, \<^verbatim>\<open>NaN\<close> for
  \<^verbatim>\<open>NaN\<close>.  This is what JavaScript prints for the integers that a double represents
  exactly and prints without an exponent (below \<open>10 ^ 21\<close>), which covers every day
  number; larger numbers are printed by JavaScript with an exponent and are not modelled.
\<close>

fun showNat :: "nat \<Rightarrow> string" where
  "showNat n = (if n < 10 then [''0123456789'' ! n] else showNat (n div 10) @ [''0123456789'' ! (n mod 10)])"

declare showNat.simps [simp del]

definition showNumber :: "int option \<Rightarrow> string" where
  "showNumber x = (case x of None \<Rightarrow> ''NaN''
                   | Some i \<Rightarrow> if i < 0 then CHR ''-'' # showNat (nat (- i)) else showNat (nat i))"

text \<open>
  The object that both variants of the owned-token fetch push for a token id: no listing,
  no offer, and neither \<^verbatim>\<open>bestOfferOrderHash\<close> nor \<^verbatim>\<open>bestOfferProtocolAddress\<close>.
\<close>

definition newCanvasItem :: "string \<Rightarrow> CanvasItem" where
  "newCanvasItem tokenId =
     (let day = parseInt tokenId
      in \<lparr>id' = tokenId,
          day = day,
          imageUrl = ''https://basepaint.xyz/api/art/image?day='' @ showNumber day,
          lastSale = 0,
          listPrice = None,
          bestOffer = 0,
          isListed = Some False,
          bestOfferOrderHash = None,
          bestOfferProtocolAddress = None\<rparr>)"

section \<open>An example marketplace\<close>

text \<open>
  A conversion for the examples only (the properties are proved for every conversion): a
  string of decimal digits in the smallest unit, divided by \<open>10 ^ decimals\<close>.  On such
  strings it is what \<^verbatim>\<open>ethers.formatUnits\<close> gives, up to the rounding of
  \<^verbatim>\<open>parseFloat\<close>.  The library also accepts signed and hexadecimal strings; the
  examples contain none, and this conversion treats them like the strings on which the
  library throws.
\<close>

definition decimalUnits :: units where
  "decimalUnits raw decimals =
     (if raw \<noteq> [] \<and> list_all isDigit raw then Some (of_nat (digitsToNat raw) / 10 ^ decimals) else None)"

text \<open>
  The scenario of the specification: token 701 has a best listing of 0.025 ETH, no other
  token has a listing, and no token has an offer.
\<close>

definition exampleMarket :: rest_market where
  "exampleMarket =
     \<lparr>rest_listings = (\<lambda>k tokenId.
        if tokenId = ''701''
        then Json (Some [\<lparr>listing_price_current =
                            Some \<lparr>price_value = Some ''25000000000000000'', price_decimals = Some 18\<rparr>\<rparr>])
        else Json (Some [])),
      rest_offers = (\<lambda>k tokenId. Json (Some []))\<rparr>"

definition exampleItems :: "CanvasItem list" where
  "exampleItems = map newCanvasItem [''701'', ''703'']"

definition exampleWallet :: "CanvasItem list" where
  "exampleWallet = map newCanvasItem [''701'', ''703'', ''699'', ''544'', ''233'']"

section \<open>The wallet hook\<close>

text \<open>
  \<^verbatim>\<open>useWallet\<close>.  The hook keeps three pieces of state and talks to an injected
  EIP-1193 provider through \<^verbatim>\<open>provider.request\<close>.
\<close>

definition BASE_CHAIN_ID :: string where
  "BASE_CHAIN_ID = ''0x2105''"

record native_currency =
  currency_name :: string
  currency_symbol :: string
  currency_decimals :: nat

record chain_config =
  chainId :: string
  chainName :: string
  rpcUrls :: "string list"
  blockExplorerUrls :: "string list"
  nativeCurrency :: native_currency

definition BASE_CHAIN_CONFIG :: chain_config where
  "BASE_CHAIN_CONFIG =
     \<lparr>chainId = BASE_CHAIN_ID,
      chainName = ''Base'',
      rpcUrls = [''https://mainnet.base.org''],
      blockExplorerUrls = [''https://basescan.org''],
      nativeCurrency = \<lparr>currency_name = ''Ether'', currency_symbol = ''ETH'', currency_decimals = 18\<rparr>\<rparr>"

text \<open>The requests that \<^verbatim>\<open>connect\<close> can send, with their parameters.\<close>

datatype rpc_request =
    Eth_requestAccounts
  | Eth_chainId
  | Wallet_switchEthereumChain string
  | Wallet_addEthereumChain chain_config

text \<open>
  The provider, which is outside the repository: how it settles each of the four
  requests.  \<^verbatim>\<open>connect\<close> sends each of them at most once, so one outcome per method
  describes every behaviour of the provider during a call.  The accounts may be
  \<^verbatim>\<open>null\<close>.  The chain id is compared with \<^verbatim>\<open>!==\<close>, so a provider that reports
  anything but the string \<^verbatim>\<open>'0x2105'\<close> behaves like one that reports a different string.
\<close>

record provider =
  eth_requestAccounts :: "string list option outcome"
  eth_chainId :: "string outcome"
  wallet_switchEthereumChain :: "unit outcome"
  wallet_addEthereumChain :: "unit outcome"

record wallet =
  address :: "string option"
  isConnecting :: bool
  error :: "string option"

text \<open>
  Reading a property of \<^verbatim>\<open>null\<close> or \<^verbatim>\<open>undefined\<close> raises a \<^verbatim>\<open>TypeError\<close>, an
  object with a message and without a \<^verbatim>\<open>code\<close>.  The message is worded by the engine;
  this is the wording of V8, for instance
  \<^verbatim>\<open>Cannot read properties of null (reading 'code')\<close>.
\<close>

fun showNullish :: "nullish \<Rightarrow> string" where
  "showNullish JsNull = ''null''"
| "showNullish JsUndefined = ''undefined''"

definition typeErrorMessage :: "nullish \<Rightarrow> string \<Rightarrow> string" where
  "typeErrorMessage n property =
     ''Cannot read properties of '' @ showNullish n @ '' (reading '' @ [CHR 0x27] @ property @ [CHR 0x27] @ '')''"

definition typeError :: "nullish \<Rightarrow> string \<Rightarrow> js_error" where
  "typeError n property = ErrObj None (Some (typeErrorMessage n property))"

text \<open>
  The \<^verbatim>\<open>try\<close> block of \<^verbatim>\<open>connect\<close>: the state after it, the requests sent, and the
  exception that left the block, if any.  The inner \<^verbatim>\<open>catch\<close> reads
  \<^verbatim>\<open>switchError.code\<close>, adds the chain when the code is 4902 and otherwise does
  nothing.
\<close>

definition connect_try :: "provider \<Rightarrow> wallet \<Rightarrow> wallet \<times> rpc_request list \<times> js_error option" where
  "connect_try provider st =
     (case eth_requestAccounts provider of
        Rejects e \<Rightarrow> (st, [Eth_requestAccounts], Some e)
      | Resolves accounts \<Rightarrow>
          (let st1 = (case accounts of Some (a # others) \<Rightarrow> st\<lparr>address := Some a\<rparr> | _ \<Rightarrow> st)
           in case eth_chainId provider of
                Rejects e \<Rightarrow> (st1, [Eth_requestAccounts, Eth_chainId], Some e)
              | Resolves currentChainId \<Rightarrow>
                  if currentChainId \<noteq> BASE_CHAIN_ID then
                    (case wallet_switchEthereumChain provider of
                       Resolves u \<Rightarrow>
                         (st1, [Eth_requestAccounts, Eth_chainId, Wallet_switchEthereumChain BASE_CHAIN_ID], None)
                     | Rejects switchError \<Rightarrow>
                         (case switchError of
                            Nullish n \<Rightarrow>
                              (st1, [Eth_requestAccounts, Eth_chainId, Wallet_switchEthereumChain BASE_CHAIN_ID],
                               Some (typeError n ''code''))
                          | ErrObj code message \<Rightarrow>
                              if code = Some 4902 then
                                (case wallet_addEthereumChain provider of
                                   Resolves u \<Rightarrow>
                                     (st1, [Eth_requestAccounts, Eth_chainId,
                                            Wallet_switchEthereumChain BASE_CHAIN_ID,
                                            Wallet_addEthereumChain BASE_CHAIN_CONFIG], None)
                                 | Rejects e \<Rightarrow>
                                     (st1, [Eth_requestAccounts, Eth_chainId,
                                            Wallet_switchEthereumChain BASE_CHAIN_ID,
                                            Wallet_addEthereumChain BASE_CHAIN_CONFIG], Some e))
                              else
                                (st1, [Eth_requestAccounts, Eth_chainId,
                                       Wallet_switchEthereumChain BASE_CHAIN_ID], None)))
                  else (st1, [Eth_requestAccounts, Eth_chainId], None)))"

text \<open>
  \<^verbatim>\<open>connect\<close>: the new state, the requests sent to the provider, and how the promise
  returned by \<^verbatim>\<open>connect\<close> settles.  \<open>None\<close> as provider means that \<^verbatim>\<open>getProvider()\<close>
  found none.  The outer \<^verbatim>\<open>catch\<close> evaluates \<^verbatim>\<open>err.message || 'Failed to connect'\<close>,
  which itself throws when \<^verbatim>\<open>err\<close> is \<^verbatim>\<open>null\<close> or \<^verbatim>\<open>undefined\<close>; \<^verbatim>\<open>finally\<close> runs in
  every case.
\<close>

definition connect :: "provider option \<Rightarrow> wallet \<Rightarrow> wallet \<times> rpc_request list \<times> unit outcome" where
  "connect provider st =
     (let st0 = st\<lparr>isConnecting := True, error := None\<rparr>
      in case provider of
           None \<Rightarrow>
             (st0\<lparr>error := Some ''No wallet found. Open in a crypto-enabled browser.'',
                  isConnecting := False\<rparr>, [], Resolves ())
         | Some p \<Rightarrow>
             (case connect_try p st0 of
                (st1, calls, None) \<Rightarrow> (st1\<lparr>isConnecting := False\<rparr>, calls, Resolves ())
              | (st1, calls, Some (Nullish n)) \<Rightarrow>
                  (st1\<lparr>isConnecting := False\<rparr>, calls, Rejects (typeError n ''message''))
              | (st1, calls, Some (ErrObj code message)) \<Rightarrow>
                  (st1\<lparr>error := Some (if truthy message then the message else ''Failed to connect''),
                       isConnecting := False\<rparr>, calls, Resolves ())))"

text \<open>\<^verbatim>\<open>disconnect\<close>: the new state and the requests sent to the provider.\<close>

definition disconnect :: "wallet \<Rightarrow> wallet \<times> rpc_request list" where
  "disconnect st = (st\<lparr>address := None\<rparr>, [])"

fun isSwitch :: "rpc_request \<Rightarrow> bool" where
  "isSwitch (Wallet_switchEthereumChain c) = True"
| "isSwitch r = False"

fun isAdd :: "rpc_request \<Rightarrow> bool" where
  "isAdd (Wallet_addEthereumChain c) = True"
| "isAdd r = False"

text \<open>Whether the provider rejects a request.\<close>

fun isRejected :: "'a outcome \<Rightarrow> bool" where
  "isRejected (Rejects e) = True"
| "isRejected (Resolves x) = False"

fun rejects :: "provider \<Rightarrow> rpc_request \<Rightarrow> bool" where
  "rejects p Eth_requestAccounts = isRejected (eth_requestAccounts p)"
| "rejects p Eth_chainId = isRejected (eth_chainId p)"
| "rejects p (Wallet_switchEthereumChain c) = isRejected (wallet_switchEthereumChain p)"
| "rejects p (Wallet_addEthereumChain c) = isRejected (wallet_addEthereumChain p)"

text \<open>Example providers and an idle wallet.\<close>

definition idleWallet :: wallet where
  "idleWallet = \<lparr>address = None, isConnecting = False, error = None\<rparr>"

text \<open>On Ethereum mainnet; does not know Base, and adds it on request.\<close>

definition unknownChainProvider :: provider where
  "unknownChainProvider =
     \<lparr>eth_requestAccounts = Resolves (Some [''0x1111111111111111111111111111111111111111'']),
      eth_chainId = Resolves ''0x1'',
      wallet_switchEthereumChain = Rejects (ErrObj (Some 4902) (Some ''Unrecognized chain ID'')),
      wallet_addEthereumChain = Resolves ()\<rparr>"

text \<open>On Ethereum mainnet; the user declines the switch to Base (code 4001).\<close>

definition decliningProvider :: provider where
  "decliningProvider =
     \<lparr>eth_requestAccounts = Resolves (Some [''0x1111111111111111111111111111111111111111'']),
      eth_chainId = Resolves ''0x1'',
      wallet_switchEthereumChain = Rejects (ErrObj (Some 4001) (Some ''User rejected the request.'')),
      wallet_addEthereumChain = Resolves ()\<rparr>"

text \<open>The user declines the account request.\<close>

definition refusingProvider :: provider where
  "refusingProvider =
     \<lparr>eth_requestAccounts = Rejects (ErrObj (Some 4001) (Some ''User rejected the request.'')),
      eth_chainId = Resolves ''0x1'',
      wallet_switchEthereumChain = Resolves (),
      wallet_addEthereumChain = Resolves ()\<rparr>"

text \<open>
  A failure during \<^verbatim>\<open>connect\<close>: no provider, or a request that was sent and rejected.
\<close>

definition connectFailed :: "provider option \<Rightarrow> rpc_request list \<Rightarrow> bool" where
  "connectFailed provider calls =
     (case provider of None \<Rightarrow> True | Some p \<Rightarrow> list_ex (rejects p) calls)"

text \<open>
  The property that C7 states of a call of \<^verbatim>\<open>connect\<close>: the promise does not reject, and
  a failure leaves a non-empty string in \<^verbatim>\<open>error\<close>.
\<close>

definition reportsEveryFailure :: "provider option \<Rightarrow> wallet \<Rightarrow> bool" where
  "reportsEveryFailure provider st =
     (case connect provider st of
        (st', calls, completion) \<Rightarrow>
          completion = Resolves () \<and>
          (connectFailed provider calls \<longrightarrow> (case error st' of None \<Rightarrow> False | Some s \<Rightarrow> s \<noteq> [])))"

text \<open>
  The values with which the provider rejects the requests whose failure reaches the outer
  \<^verbatim>\<open>catch\<close> (\<^verbatim>\<open>eth_requestAccounts\<close>, \<^verbatim>\<open>eth_chainId\<close> and
  \<^verbatim>\<open>wallet_addEthereumChain\<close>) are objects.  The value of a rejected
  \<^verbatim>\<open>wallet_switchEthereumChain\<close> reaches the inner \<^verbatim>\<open>catch\<close> only and is not
  restricted.
\<close>

fun rejectsWithObject :: "'a outcome \<Rightarrow> bool" where
  "rejectsWithObject (Rejects (Nullish n)) = False"
| "rejectsWithObject r = True"

definition objectErrors :: "provider \<Rightarrow> bool" where
  "objectErrors p =
     (rejectsWithObject (eth_requestAccounts p) \<and> rejectsWithObject (eth_chainId p) \<and>
      rejectsWithObject (wallet_addEthereumChain p))"

text \<open>On Ethereum mainnet; the switch to Base is rejected with \<^verbatim>\<open>null\<close>.\<close>

definition nullSwitchProvider :: provider where
  "nullSwitchProvider =
     \<lparr>eth_requestAccounts = Resolves (Some [''0x1111111111111111111111111111111111111111'']),
      eth_chainId = Resolves ''0x1'',
      wallet_switchEthereumChain = Rejects (Nullish JsNull),
      wallet_addEthereumChain = Resolves ()\<rparr>"

text \<open>The account request is rejected with \<^verbatim>\<open>undefined\<close>.\<close>

definition nullAccountsProvider :: provider where
  "nullAccountsProvider =
     \<lparr>eth_requestAccounts = Rejects (Nullish JsUndefined),
      eth_chainId = Resolves ''0x2105'',
      wallet_switchEthereumChain = Resolves (),
      wallet_addEthereumChain = Resolves ()\<rparr>"

section \<open>Fetching the owned tokens\<close>

definition COLLECTION_SLUG :: string where
  "COLLECTION_SLUG = ''basepaint''"

definition BASEPAINT_NFT_CONTRACT :: string where
  "BASEPAINT_NFT_CONTRACT = ''0xba5e05cb26b78eda3a2f8e3b3814726305dcac83''"

text \<open>\<^verbatim>\<open>s.toLowerCase()\<close>, on ASCII letters.\<close>

definition toLowerCase :: "string \<Rightarrow> string" where
  "toLowerCase s =
     map (\<lambda>c. case map_of (zip ''ABCDEFGHIJKLMNOPQRSTUVWXYZ'' ''abcdefghijklmnopqrstuvwxyz'') c of
                None \<Rightarrow> c | Some l \<Rightarrow> l) s"

text \<open>
  A token as the marketplace reports it, a page of tokens with the cursor of the next
  page, and a page request.  The REST variant sends the page size, the collection slug
  and the cursor as query parameters; the SDK variant passes the page size and the cursor
  to \<^verbatim>\<open>getNFTsByAccount\<close> and sends no collection.
\<close>

record nft_json =
  nft_identifier :: string
  nft_contract :: "string option"

record nft_page =
  page_nfts :: "nft_json list option"
  page_next :: "string option"

record nft_request =
  req_account :: string
  req_limit :: nat
  req_collection :: "string option"
  req_next :: "string option"

text \<open>
  One iteration of the paging loop as an observer sees it: the request, the tokens and
  the cursor of the response (none when the request failed), and the number of results
  accumulated after the iteration.
\<close>

record page_step =
  step_request :: nft_request
  step_nfts :: "nft_json list"
  step_next :: "string option"
  step_count :: nat

text \<open>
  How a run of a loop that need not terminate ends: it returns, it throws, or the fuel
  of the model runs out while the loop would go on.
\<close>

datatype 'a ending = Returned 'a | Thrown js_error | OutOfFuel

text \<open>
  The URL that the REST variant builds: page size 200, the collection slug, and the
  cursor when there is one.
\<close>

definition restRequest :: "string \<Rightarrow> string option \<Rightarrow> nft_request" where
  "restRequest walletAddress next =
     \<lparr>req_account = walletAddress, req_limit = 200, req_collection = Some COLLECTION_SLUG,
      req_next = (if truthy next then next else None)\<rparr>"

text \<open>The arguments of \<^verbatim>\<open>sdk.api.getNFTsByAccount\<close> in the SDK variant: page size 50.\<close>

definition sdkRequest :: "string \<Rightarrow> string option \<Rightarrow> nft_request" where
  "sdkRequest walletAddress cursor =
     \<lparr>req_account = walletAddress, req_limit = 50, req_collection = None, req_next = cursor\<rparr>"

text \<open>
  \<^verbatim>\<open>fetchNFTsByOwner\<close> (REST): the \<^verbatim>\<open>do ... while (next && results.length < 500)\<close> loop.
  \<open>n\<close> counts the requests sent so far; the server may answer each request differently.
  One unit of fuel is one request.
\<close>

fun fetchNFTsByOwner_loop ::
  "nat \<Rightarrow> (nat \<Rightarrow> nft_request \<Rightarrow> nft_page response) \<Rightarrow> string \<Rightarrow> nat \<Rightarrow> string option \<Rightarrow> CanvasItem list
     \<Rightarrow> page_step list \<times> CanvasItem list ending" where
  "fetchNFTsByOwner_loop 0 server walletAddress n next results = ([], OutOfFuel)"
| "fetchNFTsByOwner_loop (Suc fuel) server walletAddress n next results =
     (let request = restRequest walletAddress next
      in case server n request of
           Threw e \<Rightarrow>
             ([\<lparr>step_request = request, step_nfts = [], step_next = None, step_count = length results\<rparr>],
              Thrown e)
         | NotOk status \<Rightarrow>
             ([\<lparr>step_request = request, step_nfts = [], step_next = None, step_count = length results\<rparr>],
              Thrown (ErrObj None (Some (''OpenSea NFTs error: '' @ showNat status))))
         | Json data \<Rightarrow>
             (let nfts = (case page_nfts data of None \<Rightarrow> [] | Some xs \<Rightarrow> xs);
                  results' = results @ map (\<lambda>nft. newCanvasItem (nft_identifier nft)) nfts;
                  next' = page_next data;
                  step = \<lparr>step_request = request, step_nfts = nfts, step_next = next',
                           step_count = length results'\<rparr>
              in if truthy next' \<and> length results' < 500
                 then (case fetchNFTsByOwner_loop fuel server walletAddress (Suc n) next' results' of
                         (steps, ending) \<Rightarrow> (step # steps, ending))
                 else ([step], Returned results')))"

definition fetchNFTsByOwner ::
  "nat \<Rightarrow> (nat \<Rightarrow> nft_request \<Rightarrow> nft_page response) \<Rightarrow> string \<Rightarrow> page_step list \<times> CanvasItem list ending" where
  "fetchNFTsByOwner fuel server walletAddress = fetchNFTsByOwner_loop fuel server walletAddress 0 None []"

text \<open>The test of the SDK variant: \<^verbatim>\<open>nft.contract?.toLowerCase() === BASEPAINT_NFT_CONTRACT.toLowerCase()\<close>\<close>

definition isBasePaint :: "nft_json \<Rightarrow> bool" where
  "isBasePaint nft =
     (case nft_contract nft of None \<Rightarrow> False
      | Some c \<Rightarrow> toLowerCase c = toLowerCase BASEPAINT_NFT_CONTRACT)"

text \<open>
  The loop of \<^verbatim>\<open>fetchOwnedBasePaints\<close> (SDK): pages of 50, the contract filter, and
  \<^verbatim>\<open>do ... while (cursor && results.length < 200)\<close> with a \<^verbatim>\<open>break\<close> when the response
  has no cursor.  A page without a token array makes the \<^verbatim>\<open>for ... of\<close> throw.
\<close>

fun fetchOwnedBasePaints_loop ::
  "nat \<Rightarrow> (nat \<Rightarrow> nft_request \<Rightarrow> nft_page outcome) \<Rightarrow> string \<Rightarrow> nat \<Rightarrow> string option \<Rightarrow> CanvasItem list
     \<Rightarrow> page_step list \<times> CanvasItem list ending" where
  "fetchOwnedBasePaints_loop 0 api walletAddress n cursor results = ([], OutOfFuel)"
| "fetchOwnedBasePaints_loop (Suc fuel) api walletAddress n cursor results =
     (let request = sdkRequest walletAddress cursor
      in case api n request of
           Rejects e \<Rightarrow>
             ([\<lparr>step_request = request, step_nfts = [], step_next = None, step_count = length results\<rparr>],
              Thrown e)
         | Resolves page \<Rightarrow>
             (case page_nfts page of
                None \<Rightarrow>
                  ([\<lparr>step_request = request, step_nfts = [], step_next = None, step_count = length results\<rparr>],
                   Thrown (ErrObj None (Some ''nfts is not iterable'')))
              | Some nfts \<Rightarrow>
                  (let results' = results @ map (\<lambda>nft. newCanvasItem (nft_identifier nft)) (filter isBasePaint nfts);
                       next = page_next page;
                       cursor' = (if truthy next then next else None);
                       step = \<lparr>step_request = request, step_nfts = nfts, step_next = next,
                                step_count = length results'\<rparr>
                   in if \<not> truthy next then ([step], Returned results')
                      else if truthy cursor' \<and> length results' < 200
                      then (case fetchOwnedBasePaints_loop fuel api walletAddress (Suc n) cursor' results' of
                              (steps, ending) \<Rightarrow> (step # steps, ending))
                      else ([step], Returned results'))))"

text \<open>
  The hook functions \<^verbatim>\<open>fetchOwnedBasePaints\<close>: the error they store and the list they
  return, \<open>None\<close> when the loop never ends.  (The flag \<^verbatim>\<open>isLoadingNFTs\<close> is left out.)  In the SDK variant \<open>buildFailure\<close> is what
  \<^verbatim>\<open>buildReadSDK()\<close> throws, if it throws.
\<close>

record owned_tokens =
  owned_error :: "string option"
  owned_items :: "CanvasItem list"

definition errorMessage :: "string \<Rightarrow> js_error \<Rightarrow> string" where
  "errorMessage fallback err =
     (case err of Nullish n \<Rightarrow> fallback
      | ErrObj code message \<Rightarrow> if truthy message then the message else fallback)"

definition fetchOwnedBasePaints_rest ::
  "nat \<Rightarrow> (nat \<Rightarrow> nft_request \<Rightarrow> nft_page response) \<Rightarrow> string \<Rightarrow> owned_tokens option" where
  "fetchOwnedBasePaints_rest fuel server walletAddress =
     (case snd (fetchNFTsByOwner fuel server walletAddress) of
        Returned results \<Rightarrow> Some \<lparr>owned_error = None, owned_items = results\<rparr>
      | Thrown err \<Rightarrow> Some \<lparr>owned_error = Some (errorMessage ''Failed to fetch NFTs'' err), owned_items = []\<rparr>
      | OutOfFuel \<Rightarrow> None)"

definition fetchOwnedBasePaints_sdk ::
  "nat \<Rightarrow> js_error option \<Rightarrow> (nat \<Rightarrow> nft_request \<Rightarrow> nft_page outcome) \<Rightarrow> string \<Rightarrow> owned_tokens option" where
  "fetchOwnedBasePaints_sdk fuel buildFailure api walletAddress =
     (case buildFailure of
        Some err \<Rightarrow>
          Some \<lparr>owned_error = Some (errorMessage ''Failed to fetch owned NFTs'' err), owned_items = []\<rparr>
      | None \<Rightarrow>
          case snd (fetchOwnedBasePaints_loop fuel api walletAddress 0 None []) of
             Returned results \<Rightarrow> Some \<lparr>owned_error = None, owned_items = results\<rparr>
           | Thrown err \<Rightarrow>
               Some \<lparr>owned_error = Some (errorMessage ''Failed to fetch owned NFTs'' err), owned_items = []\<rparr>
           | OutOfFuel \<Rightarrow> None)"

text \<open>The tokens and the cursor that a response carries; nothing when the request failed.\<close>

fun rest_pageOf :: "nft_page response \<Rightarrow> nft_json list \<times> string option" where
  "rest_pageOf (Json data) = ((case page_nfts data of None \<Rightarrow> [] | Some xs \<Rightarrow> xs), page_next data)"
| "rest_pageOf r = ([], None)"

fun sdk_pageOf :: "nft_page outcome \<Rightarrow> nft_json list \<times> string option" where
  "sdk_pageOf (Resolves page) =
     (case page_nfts page of None \<Rightarrow> ([], None) | Some nfts \<Rightarrow> (nfts, page_next page))"
| "sdk_pageOf r = ([], None)"

text \<open>
  The loop goes on after an iteration: the response had a cursor and the results so far
  are below the cap.
\<close>

definition continues :: "nat \<Rightarrow> page_step \<Rightarrow> bool" where
  "continues cap step = (truthy (step_next step) \<and> step_count step < cap)"



text \<open>
  An example account with two pages.  The REST server filters by collection; the SDK
  returns every token of the account, here one of another contract between the two
  BasePaint tokens (whose contract address it reports in mixed case).
\<close>

definition exampleServer :: "nat \<Rightarrow> nft_request \<Rightarrow> nft_page response" where
  "exampleServer n request =
     (if req_next request = None
      then Json \<lparr>page_nfts = Some [\<lparr>nft_identifier = ''701'', nft_contract = Some BASEPAINT_NFT_CONTRACT\<rparr>],
                 page_next = Some ''page-2''\<rparr>
      else if req_next request = Some ''page-2''
      then Json \<lparr>page_nfts = Some [\<lparr>nft_identifier = ''703'', nft_contract = Some BASEPAINT_NFT_CONTRACT\<rparr>],
                 page_next = None\<rparr>
      else NotOk 400)"

definition exampleApi :: "nat \<Rightarrow> nft_request \<Rightarrow> nft_page outcome" where
  "exampleApi n request =
     (if req_next request = None
      then Resolves \<lparr>page_nfts = Some [\<lparr>nft_identifier = ''701'',
                                          nft_contract = Some ''0xBA5E05CB26B78EDA3A2F8E3B3814726305DCAC83''\<rparr>,
                                        \<lparr>nft_identifier = ''42'',
                                          nft_contract = Some ''0x495f947276749ce646f68ac8c248420045cb7b5e''\<rparr>],
                     page_next = Some ''page-2''\<rparr>
      else if req_next request = Some ''page-2''
      then Resolves \<lparr>page_nfts = Some [\<lparr>nft_identifier = ''703'', nft_contract = Some BASEPAINT_NFT_CONTRACT\<rparr>],
                     page_next = None\<rparr>
      else Rejects (ErrObj None (Some ''Bad cursor'')))"

definition exampleAccount :: string where
  "exampleAccount = ''0x1111111111111111111111111111111111111111''"

text \<open>
  The last part of C6 for a run that returns: every item of the returned list was built
  from a token of the responses whose contract is the BasePaint contract.  (The REST
  variant reads only \<^verbatim>\<open>nft.identifier\<close> of a token; the contract is what the
  marketplace reports in \<^verbatim>\<open>nft.contract\<close>.)
\<close>

definition onlyBasePaint :: "page_step list \<Rightarrow> CanvasItem list \<Rightarrow> bool" where
  "onlyBasePaint steps rs =
     list_all (\<lambda>item. list_ex (\<lambda>nft. isBasePaint nft \<and> item = newCanvasItem (nft_identifier nft))
                              (concat (map step_nfts steps))) rs"

definition collectionOnly :: "page_step list \<times> CanvasItem list ending \<Rightarrow> bool" where
  "collectionOnly run =
     (case snd run of Returned rs \<Rightarrow> onlyBasePaint (fst run) rs | Thrown e \<Rightarrow> True | OutOfFuel \<Rightarrow> True)"

text \<open>
  A REST server that answers with a token of another contract, whatever the
  \<^verbatim>\<open>collection\<close> parameter of the request says.
\<close>

definition foreignServer :: "nat \<Rightarrow> nft_request \<Rightarrow> nft_page response" where
  "foreignServer n request =
     Json \<lparr>page_nfts = Some [\<lparr>nft_identifier = ''42'',
                                nft_contract = Some ''0x495f947276749ce646f68ac8c248420045cb7b5e''\<rparr>],
           page_next = None\<rparr>"

section \<open>The portfolio component\<close>

text \<open>
  \<^verbatim>\<open>CanvasList\<close>, the variant that loads its own data through the hooks.  The state of
  the component that its two confirm handlers read or write (the state variable
  \<^verbatim>\<open>items\<close> is written \<open>items'\<close>):
\<close>

datatype modal_type = ListModal | AcceptModal

record modal =
  m_type :: modal_type
  m_item :: CanvasItem

record duration_option =
  label :: string
  days :: nat

record canvas_list =
  items' :: "CanvasItem list"
  hasLoaded :: bool
  activeModal :: "modal option"
  listingPrice :: string
  listingDuration :: duration_option
  isProcessing :: bool
  processingStep :: string

text \<open>
  What a handler does to the world outside the component.  A toast is a call of the
  \<^verbatim>\<open>onShowToast\<close> property; the others reach the wallet provider, the marketplace or the
  frame host.  Messages built from a template literal with a number in it keep the number
  instead of its printed form.
\<close>

datatype toast_type = ToastSuccess | ToastError

datatype message =
    Text string
  | ListedMessage "int option" string
  | SoldMessage "int option" number

datatype effect =
    ConnectWallet
  | ShowToast message toast_type
  | CreateListing string string number nat
  | FulfillOffer string string string
  | OpenUrl string
  | WindowOpen string

fun isExternalCall :: "effect \<Rightarrow> bool" where
  "isExternalCall (ShowToast msg t) = False"
| "isExternalCall e = True"

text \<open>
  The surroundings of a handler: whether a wallet provider is there, how the promises of
  \<^verbatim>\<open>createListing\<close>, \<^verbatim>\<open>fulfillOffer\<close> and \<^verbatim>\<open>sdk.actions.openUrl\<close> settle, and
  \<^verbatim>\<open>Number(...)\<close> on the text of the price field (\<open>None\<close> for \<^verbatim>\<open>NaN\<close>).
\<close>

record trade_env =
  walletProvider :: bool
  createListingResult :: "unit outcome"
  fulfillOfferResult :: "string outcome"
  openUrlResult :: "unit outcome"
  toNumber :: "string \<Rightarrow> number option"

text \<open>\<^verbatim>\<open>s.includes(sub)\<close>\<close>

fun startsWith :: "string \<Rightarrow> string \<Rightarrow> bool" where
  "startsWith s [] = True"
| "startsWith [] (c # sub) = False"
| "startsWith (d # s) (c # sub) = (d = c \<and> startsWith s sub)"

fun includesStr :: "string \<Rightarrow> string \<Rightarrow> bool" where
  "includesStr [] sub = (sub = [])"
| "includesStr (c # s) sub = (startsWith (c # s) sub \<or> includesStr s sub)"

text \<open>
  The message of the \<^verbatim>\<open>catch\<close> clauses:
  \<^verbatim>\<open>err?.message?.includes('rejected') ? cancelled : (err?.message || fallback)\<close>.
\<close>

definition failureMessage :: "string \<Rightarrow> string \<Rightarrow> js_error \<Rightarrow> string" where
  "failureMessage cancelled fallback err =
     (case err of
        Nullish n \<Rightarrow> fallback
      | ErrObj code None \<Rightarrow> fallback
      | ErrObj code (Some msg) \<Rightarrow>
          if includesStr msg ''rejected'' then cancelled
          else if msg \<noteq> [] then msg else fallback)"

text \<open>
  \<^verbatim>\<open>closeModal\<close>, called from a handler: the \<^verbatim>\<open>isProcessing\<close> it tests is the value the
  handler's closure captured when the component rendered.
\<close>

definition closeModal :: "bool \<Rightarrow> canvas_list \<Rightarrow> canvas_list" where
  "closeModal capturedIsProcessing st =
     (if capturedIsProcessing then st
      else st\<lparr>activeModal := None, listingPrice := [], processingStep := []\<rparr>)"

definition SEAPORT_ADDRESS :: string where
  "SEAPORT_ADDRESS = ''0x0000000000000068F116a894984e2DB1123eB395''"

text \<open>\<^verbatim>\<open>handleAcceptConfirm\<close>: the new state and the effects, in order.\<close>

definition handleAcceptConfirm :: "trade_env \<Rightarrow> string option \<Rightarrow> canvas_list \<Rightarrow> canvas_list \<times> effect list" where
  "handleAcceptConfirm env addr st =
     (case activeModal st of
        None \<Rightarrow> (st, if \<not> truthy addr then [ConnectWallet] else [])
      | Some modal \<Rightarrow>
          if \<not> truthy addr then (st, [ConnectWallet])
          else
            (let item = m_item modal
             in if \<not> truthy (bestOfferOrderHash item)
                then (st, [ShowToast (Text ''No valid offer found'') ToastError])
                else
                  (let protocolAddress = SEAPORT_ADDRESS;
                       st1 = st\<lparr>isProcessing := True\<rparr>;
                       cleanup = (\<lambda>s. s\<lparr>isProcessing := False, processingStep := []\<rparr>)
                   in if \<not> walletProvider env
                      then (cleanup st1,
                            [ShowToast (Text (failureMessage ''Transaction cancelled'' ''Failed to accept offer''
                                                (ErrObj None (Some ''No wallet provider found'')))) ToastError])
                      else
                        (let st2 = st1\<lparr>processingStep := ''Sending transaction...''\<rparr>;
                             call = FulfillOffer (the addr) (the (bestOfferOrderHash item)) protocolAddress
                         in case fulfillOfferResult env of
                              Rejects err \<Rightarrow>
                                (cleanup st2,
                                 [call, ShowToast (Text (failureMessage ''Transaction cancelled''
                                                           ''Failed to accept offer'' err)) ToastError])
                            | Resolves txHash \<Rightarrow>
                                (let st3 = st2\<lparr>items' := filter (\<lambda>it. id' it \<noteq> id' item) (items' st2)\<rparr>;
                                     url = ''https://basescan.org/tx/'' @ txHash;
                                     opened = (if txHash \<noteq> []
                                               then OpenUrl url #
                                                    (case openUrlResult env of
                                                       Rejects e \<Rightarrow> [WindowOpen url]
                                                     | Resolves u \<Rightarrow> [])
                                               else [])
                                 in (cleanup (closeModal (isProcessing st) st3),
                                     [call, ShowToast (SoldMessage (day item) (bestOffer item)) ToastSuccess]
                                     @ opened))))))"

text \<open>\<^verbatim>\<open>handleListConfirm\<close>\<close>

definition handleListConfirm :: "trade_env \<Rightarrow> string option \<Rightarrow> canvas_list \<Rightarrow> canvas_list \<times> effect list" where
  "handleListConfirm env addr st =
     (case activeModal st of
        None \<Rightarrow> (st, if \<not> truthy addr then [ConnectWallet] else [])
      | Some modal \<Rightarrow>
          if \<not> truthy addr then (st, [ConnectWallet])
          else
            (case (if listingPrice st = [] then None else toNumber env (listingPrice st)) of
               None \<Rightarrow> (st, [ShowToast (Text ''Please enter a valid price'') ToastError])
             | Some price \<Rightarrow>
                 if price \<le> 0 then (st, [ShowToast (Text ''Please enter a valid price'') ToastError])
                 else
                   (let st1 = st\<lparr>isProcessing := True\<rparr>;
                        cleanup = (\<lambda>s. s\<lparr>isProcessing := False, processingStep := []\<rparr>)
                    in if \<not> walletProvider env
                       then (cleanup st1,
                             [ShowToast (Text (failureMessage ''Listing cancelled'' ''Failed to create listing''
                                                 (ErrObj None (Some ''No wallet provider found'')))) ToastError])
                       else
                         (let st2 = st1\<lparr>processingStep := ''Waiting for signature...''\<rparr>;
                              call = CreateListing (the addr) (id' (m_item modal)) price
                                       (days (listingDuration st))
                          in case createListingResult env of
                               Rejects err \<Rightarrow>
                                 (cleanup st2,
                                  [call, ShowToast (Text (failureMessage ''Listing cancelled''
                                                            ''Failed to create listing'' err)) ToastError])
                             | Resolves u \<Rightarrow>
                                 (let st3 = st2\<lparr>items' :=
                                        map (\<lambda>it. if id' it = id' (m_item modal)
                                                  then it\<lparr>isListed := Some True, listPrice := Some price\<rparr>
                                                  else it) (items' st2)\<rparr>
                                  in (cleanup (closeModal (isProcessing st) st3),
                                      [call, ShowToast (ListedMessage (day (m_item modal)) (listingPrice st))
                                               ToastSuccess]))))))"

text \<open>
  The confirm button.  The component renders the modal, and in it the button, only
  after its three early returns (no address, still loading, nothing owned) and only when
  a modal is active; the button is disabled while \<^verbatim>\<open>isProcessing\<close>.  The result is the
  handler the enabled button is bound to.
\<close>

definition confirmButton :: "bool \<Rightarrow> string option \<Rightarrow> canvas_list \<Rightarrow> modal_type option" where
  "confirmButton isLoadingNFTs addr st =
     (if \<not> truthy addr then None
      else if isLoadingNFTs \<and> \<not> hasLoaded st then None
      else if hasLoaded st \<and> items' st = [] then None
      else (case activeModal st of
              None \<Rightarrow> None
            | Some modal \<Rightarrow> if isProcessing st then None else Some (m_type modal)))"

text \<open>The user clicks the confirm button, if there is one to click.\<close>

definition clickConfirm :: "trade_env \<Rightarrow> bool \<Rightarrow> string option \<Rightarrow> canvas_list \<Rightarrow> canvas_list \<times> effect list" where
  "clickConfirm env isLoadingNFTs addr st =
     (case confirmButton isLoadingNFTs addr st of
        None \<Rightarrow> (st, [])
      | Some ListModal \<Rightarrow> handleListConfirm env addr st
      | Some AcceptModal \<Rightarrow> handleAcceptConfirm env addr st)"

text \<open>
  An example: the two tokens of the scenario are loaded, neither has an offer, and the
  accept modal has been opened on token 703 through the component's \<^verbatim>\<open>openAccept\<close>
  handle.  \<open>toNumber\<close> of the example reads a string of decimal digits, on which it agrees
  with \<^verbatim>\<open>Number(...)\<close>; the other strings that \<^verbatim>\<open>Number\<close> converts (such as
  \<^verbatim>\<open>1.5\<close>) do not occur in the examples.
\<close>

definition exampleTrade :: trade_env where
  "exampleTrade =
     \<lparr>walletProvider = True,
      createListingResult = Resolves (),
      fulfillOfferResult = Resolves ''0xfeed'',
      openUrlResult = Resolves (),
      toNumber = (\<lambda>s. decimalUnits s 0)\<rparr>"

definition acceptWithoutOffer :: canvas_list where
  "acceptWithoutOffer =
     \<lparr>items' = exampleItems,
      hasLoaded = True,
      activeModal = Some \<lparr>m_type = AcceptModal, m_item = newCanvasItem ''703''\<rparr>,
      listingPrice = [],
      listingDuration = \<lparr>label = ''1 month'', days = 30\<rparr>,
      isProcessing = False,
      processingStep = []\<rparr>"

section \<open>The invariant of the data model\<close>

text \<open>The two halves of the invariant of the data model.\<close>

definition offerFieldsPaired :: "CanvasItem \<Rightarrow> bool" where
  "offerFieldsPaired item = ((bestOfferOrderHash item = None) = (bestOfferProtocolAddress item = None))"

definition listedHasPrice :: "CanvasItem \<Rightarrow> bool" where
  "listedHasPrice item = (isListed item = Some True \<longrightarrow> listPrice item \<noteq> None)"

definition itemInvariant :: "CanvasItem \<Rightarrow> bool" where
  "itemInvariant item = (offerFieldsPaired item \<and> listedHasPrice item)"

text \<open>
  The first offer of a REST response, if there is one, carries \<^verbatim>\<open>order_hash\<close> and
  \<^verbatim>\<open>protocol_address\<close> together.
\<close>

definition pairedOffer :: "offer_json list option response \<Rightarrow> bool" where
  "pairedOffer res =
     (case res of
        Json (Some (offer # others)) \<Rightarrow> (order_hash offer = None) = (protocol_address offer = None)
      | _ \<Rightarrow> True)"

text \<open>
  An SDK marketplace in which token 701 has an offer of 0.001 ETH and no listing.
\<close>

definition exampleSdkMarket :: sdk_market where
  "exampleSdkMarket =
     \<lparr>sdk_ready = True,
      sdk_bestOffer = (\<lambda>k tokenId.
        if tokenId = ''701''
        then Resolves (Some \<lparr>sdk_price = Some \<lparr>price_value = Some ''1000000000000000'',
                                                 price_decimals = Some 18\<rparr>,
                              sdk_order_hash = Some ''0x5e11''\<rparr>)
        else Rejects (ErrObj None (Some ''Not found''))),
      sdk_bestListing = (\<lambda>k tokenId. Rejects (ErrObj None (Some ''Not found'')))\<rparr>"

text \<open>The list modal opened on token 703 with a price of 3 typed in.\<close>

definition listingToken703 :: canvas_list where
  "listingToken703 =
     \<lparr>items' = exampleItems,
      hasLoaded = True,
      activeModal = Some \<lparr>m_type = ListModal, m_item = newCanvasItem ''703''\<rparr>,
      listingPrice = ''3'',
      listingDuration = \<lparr>label = ''1 month'', days = 30\<rparr>,
      isProcessing = False,
      processingStep = []\<rparr>"

section \<open>The enrichment pipeline on a store\<close>

text \<open>
  The model above treats arrays and objects as values.  To say what
  \<^verbatim>\<open>enrichWithMarketData\<close> does to the array it is given, the same code is modelled once
  more on an explicit store: arrays of \<^verbatim>\<open>CanvasItem\<close> hold references to objects, an
  address is a position in the store, and allocation appends.  The code allocates an
  array with \<^verbatim>\<open>[...xs]\<close> and \<^verbatim>\<open>xs.slice(i, j)\<close>, allocates an object with an object
  literal, and writes an array element with \<^verbatim>\<open>enriched[i + idx] = ...\<close>; it never writes
  a field of an object.
\<close>

record heap =
  arrays :: "nat list list"
  objects :: "CanvasItem list"

text \<open>The elements of the array at an address; an address not yet allocated has none.\<close>

definition elements :: "heap \<Rightarrow> nat \<Rightarrow> nat list" where
  "elements h a = (if a < length (arrays h) then arrays h ! a else [])"

definition newArray :: "nat list \<Rightarrow> heap \<Rightarrow> nat \<times> heap" where
  "newArray refs h = (length (arrays h), h\<lparr>arrays := arrays h @ [refs]\<rparr>)"

definition newObject :: "CanvasItem \<Rightarrow> heap \<Rightarrow> nat \<times> heap" where
  "newObject item h = (length (objects h), h\<lparr>objects := objects h @ [item]\<rparr>)"

text \<open>\<^verbatim>\<open>array[k] = ref\<close>, for \<open>k\<close> inside the array.\<close>

definition setElement :: "nat \<Rightarrow> nat \<Rightarrow> nat \<Rightarrow> heap \<Rightarrow> heap" where
  "setElement a k ref h = h\<lparr>arrays := (arrays h)[a := (elements h a)[k := ref]]\<rparr>"

text \<open>The items of an array, read through its references.\<close>

definition itemsAt :: "heap \<Rightarrow> nat \<Rightarrow> CanvasItem list" where
  "itemsAt h a = map (\<lambda>ref. objects h ! ref) (elements h a)"

text \<open>
  The end of the task for index \<open>k\<close>: a new object is allocated from the item the task
  started with (and, in the SDK variant, from the object the slot refers to now), and the
  slot is set to refer to it.
\<close>

definition completeTask :: "units \<Rightarrow> variant \<Rightarrow> nat \<Rightarrow> CanvasItem list \<Rightarrow> nat \<Rightarrow> nat \<Rightarrow> heap \<Rightarrow> heap" where
  "completeTask formatUnits v i batch enriched k h =
     (let current = objects h ! (elements h enriched ! k);
          (ref, h1) = newObject (complete formatUnits v k (batch ! (k - i)) current) h
      in setElement enriched k ref h1)"

definition runBatch_heap :: "units \<Rightarrow> variant \<Rightarrow> nat \<Rightarrow> CanvasItem list \<Rightarrow> nat list \<Rightarrow> nat \<Rightarrow> heap \<Rightarrow> heap" where
  "runBatch_heap formatUnits v i batch order enriched h =
     fold (completeTask formatUnits v i batch enriched) order h"

lemma arrays_newObject [simp]: "arrays (snd (newObject item h)) = arrays h"
  by (simp add: newObject_def)

lemma elements_newObject [simp]: "elements (snd (newObject item h)) a = elements h a"
  by (simp add: newObject_def elements_def)

lemma length_elements_setElement [simp]:
  "length (elements (setElement a k ref h) b) = length (elements h b)"
  by (simp add: setElement_def elements_def nth_list_update)

lemma length_arrays_setElement [simp]: "length (arrays (setElement a k ref h)) = length (arrays h)"
  by (simp add: setElement_def)

lemma length_elements_completeTask [simp]:
  "length (elements (completeTask formatUnits v i batch enriched k h) a) = length (elements h a)"
  by (simp add: completeTask_def Let_def split: prod.splits)
     (metis elements_newObject length_elements_setElement snd_conv)

lemma length_arrays_completeTask [simp]:
  "length (arrays (completeTask formatUnits v i batch enriched k h)) = length (arrays h)"
  by (simp add: completeTask_def Let_def newObject_def split: prod.splits)

lemma length_elements_runBatch_heap [simp]:
  "length (elements (runBatch_heap formatUnits v i batch order enriched h) a) = length (elements h a)"
  unfolding runBatch_heap_def by (induction order arbitrary: h) simp_all

lemma length_arrays_runBatch_heap [simp]:
  "length (arrays (runBatch_heap formatUnits v i batch order enriched h)) = length (arrays h)"
  unfolding runBatch_heap_def by (induction order arbitrary: h) simp_all

lemma elements_newArray_old:
  "a < length (arrays h) \<Longrightarrow> elements (snd (newArray refs h)) a = elements h a"
  by (simp add: newArray_def elements_def nth_append)

lemma elements_allocated: "i < length (elements h a) \<Longrightarrow> a < length (arrays h)"
  by (simp add: elements_def split: if_splits)

text \<open>
  The loop on the store.  The result is the addresses of the snapshots handed to the
  callback, in order, and the store after the loop.
\<close>

function enrichLoop_heap :: "units \<Rightarrow> variant \<Rightarrow> (nat list \<Rightarrow> nat) \<Rightarrow> bool \<Rightarrow> nat \<Rightarrow> nat \<Rightarrow> heap \<Rightarrow> nat list \<times> heap" where
  "enrichLoop_heap formatUnits v pick onProgress i enriched h =
     (if i < length (elements h enriched) then
        (let (batchAddr, h1) = newArray (slice i (i + BATCH v) (elements h enriched)) h;
             batch = itemsAt h1 batchAddr;
             tasks = map (\<lambda>idx. i + idx) [0..<length batch];
             order = completionOrder pick tasks;
             h2 = runBatch_heap formatUnits v i batch order enriched h1;
             (snapshot, h3) = (if onProgress then newArray (elements h2 enriched) h2 else (0, h2));
             rest = enrichLoop_heap formatUnits v pick onProgress (i + BATCH v) enriched h3
         in ((if onProgress then [snapshot] else []) @ fst rest, snd rest))
      else ([], h))"
  by pat_completeness auto
termination
proof (relation "measure (\<lambda>(formatUnits, v, pick, onProgress, i, enriched, h). length (elements h enriched) - i)")
  show "wf (measure (\<lambda>(formatUnits, v, pick, onProgress, i, enriched, h). length (elements h enriched) - i))"
    by simp
next
  fix formatUnits :: units and v pick and onProgress :: bool and i enriched :: nat and h :: heap
    and x batchAddr h1 batch tasks order h2 y snapshot h3
  assume i: "i < length (elements h enriched)"
    and x: "x = newArray (slice i (i + BATCH v) (elements h enriched)) h" "(batchAddr, h1) = x"
    and h2: "h2 = runBatch_heap formatUnits v i batch order enriched h1"
    and y: "y = (if onProgress then newArray (elements h2 enriched) h2 else (0, h2))" "(snapshot, h3) = y"
  have alloc: "enriched < length (arrays h)" using i by (rule elements_allocated)
  have h1: "h1 = snd (newArray (slice i (i + BATCH v) (elements h enriched)) h)"
    using x by (metis snd_conv)
  have l1: "length (elements h1 enriched) = length (elements h enriched)"
    unfolding h1 using alloc by (simp add: elements_newArray_old)
  have alloc1: "enriched < length (arrays h1)"
    unfolding h1 using alloc by (simp add: newArray_def)
  have l2: "length (elements h2 enriched) = length (elements h enriched)"
    unfolding h2 using l1 by simp
  have alloc2: "enriched < length (arrays h2)"
    unfolding h2 using alloc1 by simp
  have h3: "h3 = (if onProgress then snd (newArray (elements h2 enriched) h2) else h2)"
    using y by (metis snd_conv)
  have l3: "length (elements h3 enriched) = length (elements h enriched)"
    unfolding h3 using l2 alloc2 by (simp add: elements_newArray_old)
  show "((formatUnits, v, pick, onProgress, i + BATCH v, enriched, h3),
         (formatUnits, v, pick, onProgress, i, enriched, h))
        \<in> measure (\<lambda>(formatUnits, v, pick, onProgress, i, enriched, h). length (elements h enriched) - i)"
    using i l3 by (simp add: diff_less_mono2)
qed

declare enrichLoop_heap.simps [simp del]

text \<open>
  \<^verbatim>\<open>enrichWithMarketData(items, onProgress)\<close> on the store: the snapshots, the address of
  the returned array and the store afterwards.
\<close>

definition enrichWithMarketData_heap :: "units \<Rightarrow> variant \<Rightarrow> (nat list \<Rightarrow> nat) \<Rightarrow> bool \<Rightarrow> nat \<Rightarrow> heap \<Rightarrow> nat list \<times> nat \<times> heap" where
  "enrichWithMarketData_heap formatUnits v pick onProgress items h =
     (let (enriched, h1) = newArray (elements h items) h;
          (snapshots, h2) = enrichLoop_heap formatUnits v pick onProgress 0 enriched h1
      in (snapshots, enriched, h2))"

text \<open>
  What a piece of code that only allocates, and writes elements of the array at \<open>e\<close>
  only, leaves unchanged between two stores.
\<close>

definition preserves :: "nat \<Rightarrow> heap \<Rightarrow> heap \<Rightarrow> bool" where
  "preserves e h h' =
     (length (arrays h) \<le> length (arrays h') \<and>
      (\<forall>a<length (arrays h). a \<noteq> e \<longrightarrow> arrays h' ! a = arrays h ! a) \<and>
      length (objects h) \<le> length (objects h') \<and>
      (\<forall>r<length (objects h). objects h' ! r = objects h ! r))"

text \<open>
  Agreement of the two models.  On a store in which the array at \<open>e\<close> is allocated and
  holds references to allocated objects, the loop on the store computes, read through
  the references, what the loop on values computes.
\<close>

definition allocated :: "nat \<Rightarrow> heap \<Rightarrow> bool" where
  "allocated e h = (e < length (arrays h) \<and> (\<forall>ref\<in>set (elements h e). ref < length (objects h)))"

text \<open>A store that holds the two tokens of the scenario in one array, at address 0.\<close>

definition exampleHeap :: heap where
  "exampleHeap = \<lparr>arrays = [[0, 1]], objects = exampleItems\<rparr>"

section \<open>Properties of the enrichment loop\<close>

lemma completionOrder_Nil [simp]: "completionOrder pick [] = []"
  by (simp add: completionOrder.simps)

lemma completionOrder_step:
  assumes "pending \<noteq> []"
  shows "completionOrder pick pending
           = pending ! (pick pending mod length pending)
             # completionOrder pick (take (pick pending mod length pending) pending
                                     @ drop (Suc (pick pending mod length pending)) pending)"
  using assms by (subst completionOrder.simps) (simp add: Let_def)

lemma set_completionOrder [simp]: "set (completionOrder pick pending) = set pending"
proof (induction pick pending rule: completionOrder.induct)
  case (1 pick pending)
  show ?case
  proof (cases "pending = []")
    case True
    then show ?thesis by simp
  next
    case False
    define j where "j = pick pending mod length pending"
    have j: "j < length pending" using False by (simp add: j_def)
    have split: "pending = take j pending @ pending ! j # drop (Suc j) pending"
      using j by (simp add: id_take_nth_drop)
    have "set (completionOrder pick pending)
            = insert (pending ! j) (set (take j pending @ drop (Suc j) pending))"
      using "1.IH" [OF False j_def] by (simp add: completionOrder_step [OF False] j_def)
    also have "\<dots> = set pending"
      by (subst (3) split) auto
    finally show ?thesis .
  qed
qed

lemma distinct_completionOrder [simp]:
  "distinct pending \<Longrightarrow> distinct (completionOrder pick pending)"
proof (induction pick pending rule: completionOrder.induct)
  case (1 pick pending)
  show ?case
  proof (cases "pending = []")
    case True
    then show ?thesis by simp
  next
    case False
    define j where "j = pick pending mod length pending"
    have j: "j < length pending" using False by (simp add: j_def)
    have split: "pending = take j pending @ pending ! j # drop (Suc j) pending"
      using j by (simp add: id_take_nth_drop)
    have d: "distinct (take j pending @ pending ! j # drop (Suc j) pending)"
      using "1.prems" split by simp
    have d': "distinct (take j pending @ drop (Suc j) pending)"
      and notin: "pending ! j \<notin> set (take j pending @ drop (Suc j) pending)"
      using d by auto
    have "distinct (completionOrder pick (take j pending @ drop (Suc j) pending))"
      using "1.IH" [OF False j_def d'] .
    then show ?thesis
      using notin by (simp add: completionOrder_step [OF False] j_def)
  qed
qed

lemma runBatch_nth:
  assumes "distinct order" and "\<forall>k\<in>set order. k < length enriched" and "j < length enriched"
  shows "runBatch formatUnits v i batch order enriched ! j =
           (if j \<in> set order then complete formatUnits v j (batch ! (j - i)) (enriched ! j)
            else enriched ! j)"
  using assms unfolding runBatch_def
proof (induction order arbitrary: enriched)
  case Nil
  then show ?case by simp
next
  case (Cons k order)
  let ?e = "enriched[k := complete formatUnits v k (batch ! (k - i)) (enriched ! k)]"
  have "fold (\<lambda>k e. e[k := complete formatUnits v k (batch ! (k - i)) (e ! k)]) order ?e ! j
          = (if j \<in> set order then complete formatUnits v j (batch ! (j - i)) (?e ! j) else ?e ! j)"
    using Cons.prems by (intro Cons.IH) auto
  then show ?case
    using Cons.prems by (auto simp: nth_list_update)
qed


lemma slice_nth: "i + idx < length xs \<Longrightarrow> idx < j - i \<Longrightarrow> slice i j xs ! idx = xs ! (i + idx)"
  by (simp add: slice_def)

lemma length_slice: "length (slice i j xs) = min (j - i) (length xs - i)"
  by (simp add: slice_def)

lemma map_add_upt_left: "map ((+) i) [0..<b] = [i..<i + b]"
  by (induction b) simp_all

lemma batch_tasks:
  "map (\<lambda>idx. i + idx) [0..<length (slice i (i + b) xs)] = [i..<min (i + b) (length xs)]"
  by (cases "i \<le> length xs") (auto simp: length_slice map_add_upt_left min_def)

lemma batch_nth:
  assumes "j < length enriched"
  shows "runBatch formatUnits v i (slice i (i + BATCH v) enriched)
           (completionOrder pick (map (\<lambda>idx. i + idx) [0..<length (slice i (i + BATCH v) enriched)])) enriched ! j
         = (if i \<le> j \<and> j < i + BATCH v then enrichItem formatUnits v j (enriched ! j) else enriched ! j)"
proof -
  let ?tasks = "[i..<min (i + BATCH v) (length enriched)]"
  have "runBatch formatUnits v i (slice i (i + BATCH v) enriched) (completionOrder pick ?tasks) enriched ! j
      = (if j \<in> set (completionOrder pick ?tasks)
         then complete formatUnits v j (slice i (i + BATCH v) enriched ! (j - i)) (enriched ! j)
         else enriched ! j)"
    using assms by (intro runBatch_nth) auto
  moreover have "slice i (i + BATCH v) enriched ! (j - i) = enriched ! j" if "i \<le> j" "j < i + BATCH v"
    using that assms slice_nth [of i "j - i" enriched "i + BATCH v"] by simp
  ultimately show ?thesis
    using assms by (auto simp: batch_tasks enrichItem_def)
qed

lemma enrichLoop_step:
  assumes "i < length enriched"
  shows "enrichLoop formatUnits v pick onProgress i enriched =
     (let batch = slice i (i + BATCH v) enriched;
          tasks = map (\<lambda>idx. i + idx) [0..<length batch];
          order = completionOrder pick tasks;
          enriched' = runBatch formatUnits v i batch order enriched;
          rest = enrichLoop formatUnits v pick onProgress (i + BATCH v) enriched'
      in (map Start tasks @ map Done order @ (if onProgress then [Progress enriched'] else []) @ fst rest,
          snd rest))"
  using assms by (subst enrichLoop.simps) simp

lemma enrichLoop_stop:
  assumes "\<not> i < length enriched"
  shows "enrichLoop formatUnits v pick onProgress i enriched = ([], enriched)"
  using assms by (subst enrichLoop.simps) simp

lemma enrichLoop_result:
  "length (snd (enrichLoop formatUnits v pick onProgress i enriched)) = length enriched \<and>
   (\<forall>k<length enriched. snd (enrichLoop formatUnits v pick onProgress i enriched) ! k =
        (if i \<le> k then enrichItem formatUnits v k (enriched ! k) else enriched ! k))"
proof (induction formatUnits v pick onProgress i enriched rule: enrichLoop.induct)
  case (1 formatUnits v pick onProgress i enriched)
  show ?case
  proof (cases "i < length enriched")
    case False
    then show ?thesis by (simp add: enrichLoop_stop)
  next
    case True
    define batch where "batch = slice i (i + BATCH v) enriched"
    define tasks where "tasks = map (\<lambda>idx. i + idx) [0..<length batch]"
    define order where "order = completionOrder pick tasks"
    define enriched' where "enriched' = runBatch formatUnits v i batch order enriched"
    have len: "length enriched' = length enriched"
      by (simp add: enriched'_def)
    have nth: "enriched' ! k =
        (if i \<le> k \<and> k < i + BATCH v then enrichItem formatUnits v k (enriched ! k) else enriched ! k)"
      if "k < length enriched" for k
      using batch_nth [OF that, of formatUnits v i pick]
      by (simp add: enriched'_def order_def tasks_def batch_def)
    have IH: "length (snd (enrichLoop formatUnits v pick onProgress (i + BATCH v) enriched')) = length enriched' \<and>
        (\<forall>k<length enriched'. snd (enrichLoop formatUnits v pick onProgress (i + BATCH v) enriched') ! k =
          (if i + BATCH v \<le> k then enrichItem formatUnits v k (enriched' ! k) else enriched' ! k))"
      using "1.IH" [OF True batch_def tasks_def order_def enriched'_def] .
    have snd_eq: "snd (enrichLoop formatUnits v pick onProgress i enriched)
        = snd (enrichLoop formatUnits v pick onProgress (i + BATCH v) enriched')"
      by (simp add: enrichLoop_step [OF True] Let_def enriched'_def order_def tasks_def batch_def)
    show ?thesis
      unfolding snd_eq using IH len nth by auto
  qed
qed

lemma snapshots_append [simp]: "snapshots (xs @ ys) = snapshots xs @ snapshots ys"
  by (induction xs rule: snapshots.induct) simp_all

lemma snapshots_no_Progress:
  "(\<And>s. Progress s \<notin> set evs) \<Longrightarrow> snapshots evs = []"
  by (induction evs rule: snapshots.induct) auto

lemma snapshots_Start [simp]: "snapshots (map Start ks) = []"
  by (rule snapshots_no_Progress) auto

lemma snapshots_Done [simp]: "snapshots (map Done ks) = []"
  by (rule snapshots_no_Progress) auto

lemma ceil_step':
  fixes m b :: nat
  assumes m: "0 < m" and b: "0 < b"
  shows "(m + b - 1) div b = Suc ((m - b + b - 1) div b)"
proof (cases "b \<le> m")
  case True
  have 1: "m + b - 1 = (m - 1) + b" using m by simp
  have 2: "m - b + b - 1 = m - 1" using True by simp
  have "((m - 1) + b) div b = Suc ((m - 1) div b)"
    using b by simp
  then show ?thesis unfolding 1 2 .
next
  case False
  have 2: "m - b + b - 1 = b - 1" using False by simp
  have 3: "(b - 1) div b = 0" using b by simp
  obtain d where d: "m = Suc d" using m by (cases m) auto
  have "m + b - 1 = d + b" using d by simp
  moreover have "d < b" using False d by simp
  ultimately have "(m + b - 1) div b = 1"
    using b by simp
  then show ?thesis unfolding 2 3 by simp
qed

lemma ceil_step:
  fixes n i b :: nat
  assumes "i < n" and "0 < b"
  shows "(n - i + b - 1) div b = Suc ((n - (i + b) + b - 1) div b)"
proof -
  have "0 < n - i" using assms by simp
  from ceil_step' [OF this assms(2)] have "(n - i + b - 1) div b = Suc ((n - i - b + b - 1) div b)" .
  moreover have "n - i - b = n - (i + b)" by simp
  ultimately show ?thesis by simp
qed

lemma enrichLoop_snapshots:
  "length (snapshots (fst (enrichLoop formatUnits v pick True i enriched)))
       = (length enriched - i + BATCH v - 1) div BATCH v \<and>
   (\<forall>b<length (snapshots (fst (enrichLoop formatUnits v pick True i enriched))).
       length (snapshots (fst (enrichLoop formatUnits v pick True i enriched)) ! b) = length enriched \<and>
       (\<forall>k<length enriched.
           snapshots (fst (enrichLoop formatUnits v pick True i enriched)) ! b ! k =
             (if i \<le> k \<and> k < i + Suc b * BATCH v then enrichItem formatUnits v k (enriched ! k)
              else enriched ! k)))"
proof (induction formatUnits v pick "True" i enriched rule: enrichLoop.induct)
  case (1 formatUnits v pick i enriched)
  show ?case
  proof (cases "i < length enriched")
    case False
    then show ?thesis by (simp add: enrichLoop_stop)
  next
    case True
    define batch where "batch = slice i (i + BATCH v) enriched"
    define tasks where "tasks = map (\<lambda>idx. i + idx) [0..<length batch]"
    define order where "order = completionOrder pick tasks"
    define enriched' where "enriched' = runBatch formatUnits v i batch order enriched"
    define later where "later = snapshots (fst (enrichLoop formatUnits v pick True (i + BATCH v) enriched'))"
    have len: "length enriched' = length enriched"
      by (simp add: enriched'_def)
    have nth: "enriched' ! k =
        (if i \<le> k \<and> k < i + BATCH v then enrichItem formatUnits v k (enriched ! k) else enriched ! k)"
      if "k < length enriched" for k
      using batch_nth [OF that, of formatUnits v i pick]
      by (simp add: enriched'_def order_def tasks_def batch_def)
    have IH_len: "length later = (length enriched - (i + BATCH v) + BATCH v - 1) div BATCH v"
      and IH_nth: "\<And>b k. b < length later \<Longrightarrow> k < length enriched \<Longrightarrow>
          length (later ! b) = length enriched \<and>
          later ! b ! k = (if i + BATCH v \<le> k \<and> k < i + BATCH v + Suc b * BATCH v
                           then enrichItem formatUnits v k (enriched' ! k) else enriched' ! k)"
      and IH_len': "\<And>b. b < length later \<Longrightarrow> length (later ! b) = length enriched"
      using "1.hyps" [OF True batch_def tasks_def order_def enriched'_def] len
      unfolding later_def by auto
    have snaps: "snapshots (fst (enrichLoop formatUnits v pick True i enriched)) = enriched' # later"
      unfolding enrichLoop_step [OF True] Let_def later_def enriched'_def order_def tasks_def batch_def
      by (simp del: map_map)
    have "Suc (length later) = (length enriched - i + BATCH v - 1) div BATCH v"
      unfolding IH_len using ceil_step [OF True BATCH_pos, of v] by simp
    then have count: "length (enriched' # later) = (length enriched - i + BATCH v - 1) div BATCH v"
      by simp
    have each: "(enriched' # later) ! b ! k =
           (if i \<le> k \<and> k < i + Suc b * BATCH v then enrichItem formatUnits v k (enriched ! k)
            else enriched ! k)"
      if b: "b < length (enriched' # later)" and k: "k < length enriched" for b k
    proof (cases b)
      case 0
      then show ?thesis using nth [OF k] by simp
    next
      case (Suc b')
      then have b': "b' < length later" using b by simp
      have later: "later ! b' ! k = (if i + BATCH v \<le> k \<and> k < i + BATCH v + Suc b' * BATCH v
                           then enrichItem formatUnits v k (enriched' ! k) else enriched' ! k)"
        using IH_nth [OF b' k] by simp
      have bound: "i + BATCH v + Suc b' * BATCH v = i + Suc (Suc b') * BATCH v"
        by simp
      consider "k < i" | "i \<le> k" "k < i + BATCH v" | "i + BATCH v \<le> k"
        by linarith
      then have "later ! b' ! k =
           (if i \<le> k \<and> k < i + Suc (Suc b') * BATCH v then enrichItem formatUnits v k (enriched ! k)
            else enriched ! k)"
      proof cases
        case 1
        then show ?thesis unfolding later using nth [OF k] by simp
      next
        case 2
        then have "k < i + Suc (Suc b') * BATCH v" by simp
        then show ?thesis unfolding later using nth [OF k] 2 by simp
      next
        case 3
        then have "enriched' ! k = enriched ! k" using nth [OF k] by simp
        then show ?thesis unfolding later bound using 3 by simp
      qed
      then show ?thesis unfolding Suc by simp
    qed
    have lens: "length ((enriched' # later) ! b) = length enriched"
      if b: "b < length (enriched' # later)" for b
      using b len IH_len' by (cases b) simp_all
    show ?thesis
      unfolding snaps using count each lens by blast
  qed
qed

lemma ceil_div:
  fixes n b :: nat
  assumes b: "0 < b"
  shows "\<lceil>real n / real b\<rceil> = int ((n + b - 1) div b)"
proof (rule ceiling_unique)
  let ?q = "(n + b - 1) div b"
  have eq: "n + b - 1 = ?q * b + (n + b - 1) mod b" by simp
  have r: "(n + b - 1) mod b < b" using b by simp
  have le: "n \<le> ?q * b" using eq r by linarith
  have gt: "?q * b < n + b" using eq b by linarith
  have "real (?q * b) < real (n + b)" using gt by (simp only: of_nat_less_iff)
  then have "real ?q * real b - real b < real n" by simp
  then have "(real ?q - 1) * real b < real n" by (simp add: algebra_simps)
  then show "real_of_int (int ?q) - 1 < real n / real b"
    using b by (simp add: pos_less_divide_eq)
  have "real n \<le> real (?q * b)" using le by (simp only: of_nat_le_iff)
  then have "real n \<le> real ?q * real b" by simp
  then show "real n / real b \<le> real_of_int (int ?q)"
    using b by (simp add: pos_divide_le_eq)
qed

lemma append_eq_split:
  assumes "xs @ ys = pre @ x # post"
  shows "(\<exists>mid. xs = pre @ x # mid) \<or> (\<exists>pre'. pre = xs @ pre' \<and> ys = pre' @ x # post)"
  using assms
proof (induction pre arbitrary: xs)
  case Nil
  then show ?case by (cases xs) auto
next
  case (Cons p pre)
  show ?case
  proof (cases xs)
    case Nil
    then show ?thesis using Cons.prems by simp
  next
    case (Cons a xs')
    then have "xs' @ ys = pre @ x # post" and "a = p" using Cons.prems by simp_all
    then show ?thesis using Cons.IH [of xs'] Cons by auto
  qed
qed

lemma div_same_batch:
  fixes i k b :: nat
  assumes "b dvd i" "i \<le> k" "k < i + b"
  shows "k div b = i div b"
proof -
  obtain q where q: "i = b * q" using assms(1) by (auto simp: dvd_def)
  have b: "0 < b" using assms by simp
  define r where "r = k - i"
  have k: "k = r + q * b" and r: "r < b" using assms q by (auto simp: r_def mult.commute)
  have "k div b = q" unfolding k using r b by simp
  moreover have "i div b = q" using q b by simp
  ultimately show ?thesis by simp
qed

lemma enrichLoop_sequential:
  assumes "BATCH v dvd i"
    and "fst (enrichLoop formatUnits v pick onProgress i enriched) = pre @ Start k # post"
  shows "i \<le> k \<and> k < length enriched \<and>
         (\<forall>j. i \<le> j \<and> j div BATCH v < k div BATCH v \<longrightarrow> Done j \<in> set pre)"
  using assms
proof (induction formatUnits v pick onProgress i enriched arbitrary: pre post
       rule: enrichLoop.induct)
  case (1 formatUnits v pick onProgress i enriched)
  show ?case
  proof (cases "i < length enriched")
    case False
    then show ?thesis using "1.prems" by (simp add: enrichLoop_stop)
  next
    case True
    define batch where "batch = slice i (i + BATCH v) enriched"
    define tasks where "tasks = map (\<lambda>idx. i + idx) [0..<length batch]"
    define order where "order = completionOrder pick tasks"
    define enriched' where "enriched' = runBatch formatUnits v i batch order enriched"
    define rest where "rest = fst (enrichLoop formatUnits v pick onProgress (i + BATCH v) enriched')"
    define head where "head = map Start tasks @ map Done order @ (if onProgress then [Progress enriched'] else [])"
    have tasks: "tasks = [i..<min (i + BATCH v) (length enriched)]"
      unfolding tasks_def batch_def by (rule batch_tasks)
    have order: "set order = set tasks"
      by (simp add: order_def)
    have trace: "fst (enrichLoop formatUnits v pick onProgress i enriched) = head @ rest"
      unfolding enrichLoop_step [OF True] Let_def rest_def head_def enriched'_def order_def tasks_def batch_def
      by simp
    have dvd: "BATCH v dvd i + BATCH v" using "1.prems"(1) by simp
    have len: "length enriched' = length enriched" by (simp add: enriched'_def)
    from "1.prems"(2) have "head @ rest = pre @ Start k # post" by (simp add: trace)
    from append_eq_split [OF this]
    consider (head) mid where "head = pre @ Start k # mid"
      | (rest) pre' where "pre = head @ pre'" "rest = pre' @ Start k # post"
      by blast
    then show ?thesis
    proof cases
      case head
      then have "Start k \<in> set head" by simp
      then have "k \<in> set tasks" by (auto simp: head_def split: if_splits)
      then have k: "i \<le> k" "k < i + BATCH v" "k < length enriched" by (auto simp: tasks)
      have same: "k div BATCH v = i div BATCH v"
        using div_same_batch [OF "1.prems"(1) k(1,2)] .
      have "\<not> j div BATCH v < k div BATCH v" if "i \<le> j" for j
        using div_le_mono [OF that, of "BATCH v"] unfolding same by simp
      then show ?thesis using k by blast
    next
      case rest
      have IH: "i + BATCH v \<le> k \<and> k < length enriched' \<and>
         (\<forall>j. i + BATCH v \<le> j \<and> j div BATCH v < k div BATCH v \<longrightarrow> Done j \<in> set pre')"
        using "1.IH" [OF True batch_def tasks_def order_def enriched'_def dvd] rest(2)
        unfolding rest_def by blast
      have "Done j \<in> set pre" if j: "i \<le> j" "j div BATCH v < k div BATCH v" for j
      proof (cases "i + BATCH v \<le> j")
        case True
        then show ?thesis using IH j rest(1) by simp
      next
        case False
        have "j < k"
        proof (rule ccontr)
          assume "\<not> j < k"
          then have "k \<le> j" by simp
          then have "k div BATCH v \<le> j div BATCH v" by (rule div_le_mono)
          then show False using j(2) by simp
        qed
        then have "j \<in> set tasks" using False j(1) IH len by (simp add: tasks)
        then have "Done j \<in> set head" by (simp add: head_def order)
        then show ?thesis using rest(1) by simp
      qed
      then show ?thesis using IH len by simp
    qed
  qed
qed


lemma enrichItem_frame:
  "enrichItem formatUnits v k item =
     item\<lparr>listPrice := listPrice (enrichItem formatUnits v k item),
          isListed := isListed (enrichItem formatUnits v k item),
          bestOffer := bestOffer (enrichItem formatUnits v k item),
          bestOfferOrderHash := bestOfferOrderHash (enrichItem formatUnits v k item),
          bestOfferProtocolAddress := bestOfferProtocolAddress (enrichItem formatUnits v k item)\<rparr>"
  by (cases v) (simp_all add: enrichItem_def Let_def)

lemma enrichItem_kept:
  "id' (enrichItem formatUnits v k item) = id' item"
  "day (enrichItem formatUnits v k item) = day item"
  "imageUrl (enrichItem formatUnits v k item) = imageUrl item"
  "lastSale (enrichItem formatUnits v k item) = lastSale item"
  by (cases v; simp add: enrichItem_def Let_def)+

lemma enrich_result:
  "length (snd (enrichWithMarketData formatUnits v pick onProgress items)) = length items"
  "k < length items \<Longrightarrow>
     snd (enrichWithMarketData formatUnits v pick onProgress items) ! k = enrichItem formatUnits v k (items ! k)"
  using enrichLoop_result [of formatUnits v pick onProgress 0 items]
  by (simp_all add: enrichWithMarketData_def)

lemma enrich_result_map:
  "snd (enrichWithMarketData formatUnits v pick onProgress items)
     = map (\<lambda>k. enrichItem formatUnits v k (items ! k)) [0..<length items]"
  by (rule nth_equalityI) (simp_all add: enrich_result)

lemma exampleWallet_length: "length exampleWallet = 5"
  by (simp add: exampleWallet_def)

lemma exampleWallet_nonempty: "exampleWallet \<noteq> []"
  by (simp add: exampleWallet_def)

lemma fetchBestListing_cases:
  "fetchBestListing formatUnits res = notListed \<or>
   (\<exists>p. fetchBestListing formatUnits res = \<lparr>ld_listPrice = Some p, ld_isListed = True\<rparr>)"
  by (auto simp: fetchBestListing_def fetchBestListing_try_def Let_def
           split: response.splits option.splits sum.splits)

lemma fetchBestListing_absent:
  "fetchBestListing formatUnits (Threw e) = notListed"
  "fetchBestListing formatUnits (NotOk status) = notListed"
  "fetchBestListing formatUnits (Json None) = notListed"
  "fetchBestListing formatUnits (Json (Some [])) = notListed"
  by (simp_all add: fetchBestListing_def fetchBestListing_try_def)

lemma fetchBestOffer_absent:
  "fetchBestOffer formatUnits (Threw e) = noOffer"
  "fetchBestOffer formatUnits (NotOk status) = noOffer"
  "fetchBestOffer formatUnits (Json None) = noOffer"
  "fetchBestOffer formatUnits (Json (Some [])) = noOffer"
  by (simp_all add: fetchBestOffer_def fetchBestOffer_try_def)

lemma fetchBestListing_caught:
  "fetchBestListing_try formatUnits res = Inl e \<Longrightarrow> fetchBestListing formatUnits res = notListed"
  by (simp add: fetchBestListing_def)

lemma fetchBestOffer_caught:
  "fetchBestOffer_try formatUnits res = Inl e \<Longrightarrow> fetchBestOffer formatUnits res = noOffer"
  by (simp add: fetchBestOffer_def)

lemma fetchBestListing_found:
  assumes "listing_price_current listing = Some c" and "price_value c = Some raw" and "raw \<noteq> []"
    and "formatUnits raw (case price_decimals c of None \<Rightarrow> 18 | Some d \<Rightarrow> d) = Some p"
  shows "fetchBestListing formatUnits (Json (Some (listing # others)))
           = \<lparr>ld_listPrice = Some p, ld_isListed = True\<rparr>"
  using assms by (simp add: fetchBestListing_def fetchBestListing_try_def Let_def)

lemma exampleItems_length: "length exampleItems = 2"
  by (simp add: exampleItems_def)

lemma exampleItems_ids: "id' (exampleItems ! 0) = ''701''" "id' (exampleItems ! Suc 0) = ''703''"
  by (simp_all add: exampleItems_def newCanvasItem_def Let_def)

section \<open>Claims about the enrichment pipeline\<close>

lemma enrichItem_annotated: "annotated formatUnits v k item (enrichItem formatUnits v k item)"
  by (cases v) (simp_all add: enrichItem_def Let_def)



text \<open>
  C4.  REST variant, item at index \<open>k\<close>.  When \<^verbatim>\<open>fetchBestListing\<close> finds a listing at
  price \<open>p\<close> (it returns \<open>p\<close> with \<^verbatim>\<open>isListed: true\<close>; at the level of the response: the
  first listing of the body has a non-empty price value that converts to \<open>p\<close>), the
  enriched item has \<^verbatim>\<open>listPrice = p\<close> and \<^verbatim>\<open>isListed = true\<close>.  When no listing is found (a
  rejected request, a response that is not ok, a body without listings, or any exception
  inside the helper, all of which the helper turns into its default) the enriched item
  has \<^verbatim>\<open>listPrice = undefined\<close> and \<^verbatim>\<open>isListed = false\<close>.  When no offer is found it has
  \<^verbatim>\<open>bestOffer = 0\<close>.  The helper returns one of the two shapes for every response, so no
  exception leaves it.
\<close>

theorem enrich_rest_listing_and_offer:
  assumes "k < length items"
  shows "(let item = items ! k;
              listings = rest_listings m k (id' item);
              offers = rest_offers m k (id' item);
              r = snd (enrichWithMarketData formatUnits (REST m) pick onProgress items) ! k
          in (\<forall>p. fetchBestListing formatUnits listings = \<lparr>ld_listPrice = Some p, ld_isListed = True\<rparr>
                  \<longrightarrow> listPrice r = Some p \<and> isListed r = Some True) \<and>
             (\<forall>listing others c raw p.
                  listings = Json (Some (listing # others)) \<and> listing_price_current listing = Some c \<and>
                  price_value c = Some raw \<and> raw \<noteq> [] \<and>
                  formatUnits raw (case price_decimals c of None \<Rightarrow> 18 | Some d \<Rightarrow> d) = Some p
                  \<longrightarrow> listPrice r = Some p \<and> isListed r = Some True) \<and>
             (fetchBestListing formatUnits listings = notListed
                  \<longrightarrow> listPrice r = None \<and> isListed r = Some False) \<and>
             ((\<exists>e. listings = Threw e) \<or> (\<exists>status. listings = NotOk status) \<or>
              listings = Json None \<or> listings = Json (Some []) \<or>
              (\<exists>e. fetchBestListing_try formatUnits listings = Inl e)
                  \<longrightarrow> listPrice r = None \<and> isListed r = Some False) \<and>
             (fetchBestOffer formatUnits offers = noOffer \<longrightarrow> bestOffer r = 0) \<and>
             ((\<exists>e. offers = Threw e) \<or> (\<exists>status. offers = NotOk status) \<or>
              offers = Json None \<or> offers = Json (Some []) \<or>
              (\<exists>e. fetchBestOffer_try formatUnits offers = Inl e)
                  \<longrightarrow> bestOffer r = 0) \<and>
             (fetchBestListing formatUnits listings = notListed \<or>
              (\<exists>p. fetchBestListing formatUnits listings = \<lparr>ld_listPrice = Some p, ld_isListed = True\<rparr>)))"
proof -
  define item where "item = items ! k"
  define listings where "listings = rest_listings m k (id' item)"
  define offers where "offers = rest_offers m k (id' item)"
  define r where "r = snd (enrichWithMarketData formatUnits (REST m) pick onProgress items) ! k"
  have r: "r = enrichItem formatUnits (REST m) k item"
    unfolding r_def item_def using assms by (rule enrich_result)
  have fields: "listPrice r = ld_listPrice (fetchBestListing formatUnits listings)"
    "isListed r = Some (ld_isListed (fetchBestListing formatUnits listings))"
    "bestOffer r = od_bestOffer (fetchBestOffer formatUnits offers)"
    unfolding r listings_def offers_def by (simp_all add: enrichItem_def Let_def)
  have found: "listPrice r = Some p \<and> isListed r = Some True"
    if "fetchBestListing formatUnits listings = \<lparr>ld_listPrice = Some p, ld_isListed = True\<rparr>" for p
    using that by (simp add: fields)
  have found': "listPrice r = Some p \<and> isListed r = Some True"
    if "listings = Json (Some (listing # others))" "listing_price_current listing = Some c"
       "price_value c = Some raw" "raw \<noteq> []"
       "formatUnits raw (case price_decimals c of None \<Rightarrow> 18 | Some d \<Rightarrow> d) = Some p"
    for listing others c raw p
    using fetchBestListing_found [of listing c raw formatUnits p others] that by (simp add: fields)
  have none: "listPrice r = None \<and> isListed r = Some False"
    if "fetchBestListing formatUnits listings = notListed"
    using that by (simp add: fields notListed_def)
  have none': "listPrice r = None \<and> isListed r = Some False"
    if "(\<exists>e. listings = Threw e) \<or> (\<exists>status. listings = NotOk status) \<or>
        listings = Json None \<or> listings = Json (Some []) \<or>
        (\<exists>e. fetchBestListing_try formatUnits listings = Inl e)"
  proof -
    have "fetchBestListing formatUnits listings = notListed"
      using that fetchBestListing_absent fetchBestListing_caught by metis
    then show ?thesis by (rule none)
  qed
  have zero: "bestOffer r = 0" if "fetchBestOffer formatUnits offers = noOffer"
    using that by (simp add: fields noOffer_def)
  have zero': "bestOffer r = 0"
    if "(\<exists>e. offers = Threw e) \<or> (\<exists>status. offers = NotOk status) \<or>
        offers = Json None \<or> offers = Json (Some []) \<or>
        (\<exists>e. fetchBestOffer_try formatUnits offers = Inl e)"
  proof -
    have "fetchBestOffer formatUnits offers = noOffer"
      using that fetchBestOffer_absent fetchBestOffer_caught by metis
    then show ?thesis by (rule zero)
  qed
  note cases = fetchBestListing_cases [of formatUnits listings]
  show ?thesis
    unfolding Let_def item_def [symmetric] listings_def [symmetric] offers_def [symmetric] r_def [symmetric]
    using found found' none none' zero zero' cases by blast
qed

text \<open>
  The scenario of the specification: tokens 701 and 703, a best listing of 0.025 ETH for
  701 and none for 703.
\<close>

theorem enrich_rest_listing_and_offer_witness:
  "listPrice (snd (enrichWithMarketData decimalUnits (REST exampleMarket) firstPending True exampleItems) ! 0) = Some 0.025 \<and>
   isListed (snd (enrichWithMarketData decimalUnits (REST exampleMarket) firstPending True exampleItems) ! 0) = Some True \<and>
   listPrice (snd (enrichWithMarketData decimalUnits (REST exampleMarket) firstPending True exampleItems) ! 1) = None \<and>
   isListed (snd (enrichWithMarketData decimalUnits (REST exampleMarket) firstPending True exampleItems) ! 1) = Some False \<and>
   bestOffer (snd (enrichWithMarketData decimalUnits (REST exampleMarket) firstPending True exampleItems) ! 1) = 0"
proof -
  define result where
    "result = snd (enrichWithMarketData decimalUnits (REST exampleMarket) firstPending True exampleItems)"
  have k0: "0 < length exampleItems" and k1: "1 < length exampleItems"
    by (simp_all add: exampleItems_length)
  note token701 = enrich_rest_listing_and_offer
    [OF k0, of exampleMarket decimalUnits firstPending True, unfolded Let_def, folded result_def]
  note token703 = enrich_rest_listing_and_offer
    [OF k1, of exampleMarket decimalUnits firstPending True, unfolded Let_def, folded result_def]
  have listed: "fetchBestListing decimalUnits (rest_listings exampleMarket 0 (id' (exampleItems ! 0)))
      = \<lparr>ld_listPrice = Some 0.025, ld_isListed = True\<rparr>"
    by (simp add: exampleItems_ids exampleMarket_def fetchBestListing_def fetchBestListing_try_def
        Let_def decimalUnits_def isDigit_def digitsToNat_def)
  have unlisted: "rest_listings exampleMarket 1 (id' (exampleItems ! 1)) = Json (Some [])"
    by (simp add: exampleItems_ids exampleMarket_def)
  have unoffered: "rest_offers exampleMarket 1 (id' (exampleItems ! 1)) = Json (Some [])"
    by (simp add: exampleItems_ids exampleMarket_def)
  have a: "listPrice (result ! 0) = Some 0.025 \<and> isListed (result ! 0) = Some True"
    using token701 [THEN conjunct1, rule_format, OF listed] .
  have b: "listPrice (result ! 1) = None \<and> isListed (result ! 1) = Some False"
    using token703 [THEN conjunct2, THEN conjunct2, THEN conjunct2, THEN conjunct1] unlisted by simp
  have c: "bestOffer (result ! 1) = 0"
    using token703 [THEN conjunct2, THEN conjunct2, THEN conjunct2, THEN conjunct2, THEN conjunct2, THEN conjunct1]
      unoffered by simp
  show ?thesis
    unfolding result_def [symmetric] using a b c by simp
qed


text \<open>
  C5.  The result of \<^verbatim>\<open>enrichWithMarketData\<close> has the length and the order of the input.
  The element at index \<open>k\<close> is the input item at \<open>k\<close> with at most the five market-data
  fields replaced, so \<^verbatim>\<open>id\<close>, \<^verbatim>\<open>day\<close>, \<^verbatim>\<open>imageUrl\<close> and \<^verbatim>\<open>lastSale\<close> are those of
  the input.  The result is the same for any two schedulers \<open>pick\<close>, \<open>pick'\<close> of the
  completions inside a batch (and does not depend on the presence of the callback).
  Batches run one after the other: when the task for an index \<open>k\<close> starts, the task of
  every index of an earlier batch has already written its result.
\<close>

theorem enrich_frame_and_order:
  "(let run = enrichWithMarketData formatUnits v pick onProgress items;
        result = snd run
    in length result = length items \<and>
       (\<forall>k<length items.
          result ! k = (items ! k)\<lparr>listPrice := listPrice (result ! k),
                                 isListed := isListed (result ! k),
                                 bestOffer := bestOffer (result ! k),
                                 bestOfferOrderHash := bestOfferOrderHash (result ! k),
                                 bestOfferProtocolAddress := bestOfferProtocolAddress (result ! k)\<rparr> \<and>
          id' (result ! k) = id' (items ! k) \<and>
          day (result ! k) = day (items ! k) \<and>
          imageUrl (result ! k) = imageUrl (items ! k) \<and>
          lastSale (result ! k) = lastSale (items ! k)) \<and>
       result = snd (enrichWithMarketData formatUnits v pick' onProgress' items) \<and>
       (\<forall>pre post k j. fst run = pre @ Start k # post \<and> j div BATCH v < k div BATCH v
            \<longrightarrow> Done j \<in> set pre))"
proof -
  define run where "run = enrichWithMarketData formatUnits v pick onProgress items"
  have len: "length (snd run) = length items"
    unfolding run_def by (rule enrich_result)
  have nth: "snd run ! k = enrichItem formatUnits v k (items ! k)" if "k < length items" for k
    unfolding run_def using that by (rule enrich_result)
  have frame: "snd run ! k = (items ! k)\<lparr>listPrice := listPrice (snd run ! k),
                                 isListed := isListed (snd run ! k),
                                 bestOffer := bestOffer (snd run ! k),
                                 bestOfferOrderHash := bestOfferOrderHash (snd run ! k),
                                 bestOfferProtocolAddress := bestOfferProtocolAddress (snd run ! k)\<rparr>"
    if "k < length items" for k
    unfolding nth [OF that] by (rule enrichItem_frame)
  have kept: "id' (snd run ! k) = id' (items ! k) \<and> day (snd run ! k) = day (items ! k) \<and>
      imageUrl (snd run ! k) = imageUrl (items ! k) \<and> lastSale (snd run ! k) = lastSale (items ! k)"
    if "k < length items" for k
    unfolding nth [OF that] by (simp add: enrichItem_kept)
  have same: "snd run = snd (enrichWithMarketData formatUnits v pick' onProgress' items)"
    unfolding run_def by (simp add: enrich_result_map)
  have seq: "Done j \<in> set pre"
    if "fst run = pre @ Start k # post" "j div BATCH v < k div BATCH v" for pre post k j
    using enrichLoop_sequential [of v 0 formatUnits pick onProgress items pre k post] that
    unfolding run_def enrichWithMarketData_def by simp
  show ?thesis
    unfolding Let_def run_def [symmetric] using len frame kept same seq by blast
qed

text \<open>
  The example wallet with the tasks of each batch finishing in reverse order: five items
  come back, the last is still token 233, the result equals that of the first-come order,
  and index 0 has been written before the second batch starts.
\<close>

theorem enrich_frame_and_order_witness:
  "length (snd (enrichWithMarketData decimalUnits (REST exampleMarket) lastPending False exampleWallet)) = 5 \<and>
   id' (snd (enrichWithMarketData decimalUnits (REST exampleMarket) lastPending False exampleWallet) ! 4)
     = ''233'' \<and>
   snd (enrichWithMarketData decimalUnits (REST exampleMarket) lastPending False exampleWallet)
     = snd (enrichWithMarketData decimalUnits (REST exampleMarket) firstPending True exampleWallet) \<and>
   Done 0 \<in> set (take 8 (fst (enrichWithMarketData decimalUnits (REST exampleMarket) lastPending False exampleWallet)))"
proof -
  define run where
    "run = enrichWithMarketData decimalUnits (REST exampleMarket) lastPending False exampleWallet"
  note claim = enrich_frame_and_order
    [of decimalUnits "REST exampleMarket" lastPending False exampleWallet firstPending True,
     unfolded Let_def, folded run_def]
  have trace: "fst run = [Start 0, Start 1, Start 2, Start 3, Done 3, Done 2, Done 1, Done 0] @ Start 4 # [Done 4]"
    unfolding run_def
    by (simp add: enrichWithMarketData_def enrichLoop.simps exampleWallet_length exampleWallet_nonempty
        slice_def completionOrder.simps Let_def upt_rec lastPending_def)
  have len: "length (snd run) = 5"
    using claim [THEN conjunct1] by (simp add: exampleWallet_length)
  have "id' (snd run ! 4) = id' (exampleWallet ! 4)"
    using claim [THEN conjunct2, THEN conjunct1, rule_format, of 4] by (simp add: exampleWallet_length)
  then have ident: "id' (snd run ! 4) = ''233''"
    by (simp add: exampleWallet_def newCanvasItem_def Let_def)
  have same: "snd run = snd (enrichWithMarketData decimalUnits (REST exampleMarket) firstPending True exampleWallet)"
    using claim [THEN conjunct2, THEN conjunct2, THEN conjunct1] .
  have "\<forall>pre post k j. fst run = pre @ Start k # post \<and> j div BATCH (REST exampleMarket) < k div BATCH (REST exampleMarket)
            \<longrightarrow> Done j \<in> set pre"
    using claim [THEN conjunct2, THEN conjunct2, THEN conjunct2] .
  from this [rule_format, of _ 4 "[Done 4]" 0] trace
  have "Done 0 \<in> set [Start 0, Start 1, Start 2, Start 3, Done 3, Done 2, Done 1, Done 0]"
    by simp
  then have before: "Done 0 \<in> set (take 8 (fst run))"
    by (simp add: trace)
  show ?thesis
    unfolding run_def [symmetric] using len ident same before by simp
qed

section \<open>Claims about the wallet hook\<close>

lemma typeError_object [simp]: "typeError n property \<noteq> Nullish n'" "Nullish n' \<noteq> typeError n property"
  by (simp_all add: typeError_def)

lemma typeErrorMessage_nonempty [simp]: "typeErrorMessage n property \<noteq> []"
  by (simp add: typeErrorMessage_def)

lemma truthy_the [simp]: "truthy message \<Longrightarrow> the message \<noteq> []"
  by (cases message) simp_all

text \<open>
  C2.  When \<^verbatim>\<open>eth_requestAccounts\<close> succeeds and the provider then reports a chain id
  other than \<^verbatim>\<open>0x2105\<close>, \<^verbatim>\<open>connect\<close> sends exactly one
  \<^verbatim>\<open>wallet_switchEthereumChain\<close> request (for \<^verbatim>\<open>0x2105\<close>) before its promise settles,
  and it sends a \<^verbatim>\<open>wallet_addEthereumChain\<close> request if and only if the switch
  request is rejected with an error whose code is 4902.
\<close>

theorem connect_switches_chain:
  assumes "eth_requestAccounts p = Resolves accounts"
    and "eth_chainId p = Resolves chain"
    and "chain \<noteq> ''0x2105''"
  shows "length (filter isSwitch (fst (snd (connect (Some p) st)))) = 1 \<and>
         Wallet_switchEthereumChain ''0x2105'' \<in> set (fst (snd (connect (Some p) st))) \<and>
         (list_ex isAdd (fst (snd (connect (Some p) st)))
            \<longleftrightarrow> (\<exists>message. wallet_switchEthereumChain p = Rejects (ErrObj (Some 4902) message))) \<and>
         length (filter isAdd (fst (snd (connect (Some p) st)))) \<le> 1"
  using assms
  by (auto simp: connect_def connect_try_def BASE_CHAIN_ID_def Let_def
           split: outcome.splits js_error.splits option.splits list.splits)

text \<open>A provider on another chain that does not know Base: one switch, then the add.\<close>

theorem connect_switches_chain_witness:
  "length (filter isSwitch (fst (snd (connect (Some unknownChainProvider) idleWallet)))) = 1 \<and>
   list_ex isAdd (fst (snd (connect (Some unknownChainProvider) idleWallet)))"
proof -
  have accounts: "eth_requestAccounts unknownChainProvider
       = Resolves (Some [''0x1111111111111111111111111111111111111111''])"
    and chain: "eth_chainId unknownChainProvider = Resolves ''0x1''"
    and other: "''0x1'' \<noteq> ''0x2105''"
    and unknown: "wallet_switchEthereumChain unknownChainProvider
       = Rejects (ErrObj (Some 4902) (Some ''Unrecognized chain ID''))"
    by (simp_all add: unknownChainProvider_def)
  from connect_switches_chain [OF accounts chain other, of idleWallet] unknown
  show ?thesis by simp
qed

text \<open>
  C7 as stated fails: when the user declines the chain switch (code 4001), the inner
  \<^verbatim>\<open>catch\<close> drops the error, \<^verbatim>\<open>connect\<close> resolves, and \<^verbatim>\<open>error\<close> stays
  \<^verbatim>\<open>null\<close> although a request of the connect flow failed.
\<close>

theorem connect_swallows_switch_failure:
  "\<not> reportsEveryFailure (Some decliningProvider) idleWallet"
  by (simp add: reportsEveryFailure_def connect_def connect_try_def connectFailed_def
      decliningProvider_def idleWallet_def BASE_CHAIN_ID_def Let_def)

text \<open>
  The hypothesis of the amended claim cannot be dropped: \<^verbatim>\<open>err.message\<close> in the outer
  \<^verbatim>\<open>catch\<close> is read without optional chaining, so an account request rejected with
  \<^verbatim>\<open>undefined\<close> makes the promise of \<^verbatim>\<open>connect\<close> reject with a \<^verbatim>\<open>TypeError\<close>, and
  \<^verbatim>\<open>error\<close> stays \<^verbatim>\<open>null\<close>.
\<close>

lemma connect_rejects_on_nullish_rejection:
  "snd (snd (connect (Some nullAccountsProvider) idleWallet)) = Rejects (typeError JsUndefined ''message'') \<and>
   error (fst (connect (Some nullAccountsProvider) idleWallet)) = None \<and>
   isConnecting (fst (connect (Some nullAccountsProvider) idleWallet)) = False \<and>
   \<not> objectErrors nullAccountsProvider"
  by (simp add: connect_def connect_try_def nullAccountsProvider_def idleWallet_def objectErrors_def)

text \<open>
  C7, amended.  Provided the values with which the provider rejects
  \<^verbatim>\<open>eth_requestAccounts\<close>, \<^verbatim>\<open>eth_chainId\<close> and \<^verbatim>\<open>wallet_addEthereumChain\<close> are objects,
  \<^verbatim>\<open>connect\<close> resolves and leaves \<^verbatim>\<open>isConnecting\<close> false.  A missing provider sets
  \<^verbatim>\<open>error\<close> to the "No wallet found" message without any request.  A rejected
  \<^verbatim>\<open>eth_requestAccounts\<close>, \<^verbatim>\<open>eth_chainId\<close> or \<^verbatim>\<open>wallet_addEthereumChain\<close> request sets
  \<^verbatim>\<open>error\<close> to the message of the rejection, or to \<^verbatim>\<open>'Failed to connect'\<close> when the
  rejection has no message or an empty one; in both cases the string is not empty.  A
  \<^verbatim>\<open>wallet_switchEthereumChain\<close> request rejected with \<^verbatim>\<open>null\<close> or \<^verbatim>\<open>undefined\<close> sets
  \<^verbatim>\<open>error\<close> to the message of the \<^verbatim>\<open>TypeError\<close> that reading \<^verbatim>\<open>switchError.code\<close>
  raises.  A \<^verbatim>\<open>wallet_switchEthereumChain\<close> request rejected with an object whose code
  is not 4902 is swallowed: \<^verbatim>\<open>error\<close> stays \<^verbatim>\<open>null\<close>.  When no request is rejected,
  \<^verbatim>\<open>error\<close> is \<^verbatim>\<open>null\<close>.
\<close>

theorem connect_failure_reporting:
  assumes "\<forall>p. provider = Some p \<longrightarrow> objectErrors p"
  shows "(case connect provider st of
            (st', calls, completion) \<Rightarrow>
              completion = Resolves () \<and> isConnecting st' = False \<and>
              (provider = None \<longrightarrow>
                 calls = [] \<and> error st' = Some ''No wallet found. Open in a crypto-enabled browser.'') \<and>
              (\<forall>p. provider = Some p \<longrightarrow>
                 (\<forall>code message.
                    list_ex (\<lambda>r. r = Eth_requestAccounts) calls \<and>
                    eth_requestAccounts p = Rejects (ErrObj code message)
                    \<longrightarrow> error st' = Some (if truthy message then the message else ''Failed to connect'')) \<and>
                 (\<forall>code message.
                    list_ex (\<lambda>r. r = Eth_chainId) calls \<and>
                    eth_chainId p = Rejects (ErrObj code message)
                    \<longrightarrow> error st' = Some (if truthy message then the message else ''Failed to connect'')) \<and>
                 (\<forall>code message.
                    list_ex isAdd calls \<and>
                    wallet_addEthereumChain p = Rejects (ErrObj code message)
                    \<longrightarrow> error st' = Some (if truthy message then the message else ''Failed to connect'')) \<and>
                 (list_ex (\<lambda>r. \<not> isSwitch r \<and> rejects p r) calls
                    \<longrightarrow> (\<exists>s. error st' = Some s \<and> s \<noteq> [])) \<and>
                 (\<forall>n. list_ex isSwitch calls \<and> wallet_switchEthereumChain p = Rejects (Nullish n)
                    \<longrightarrow> error st' = Some (typeErrorMessage n ''code'')) \<and>
                 (\<forall>code message.
                    list_ex isSwitch calls \<and>
                    wallet_switchEthereumChain p = Rejects (ErrObj code message) \<and> code \<noteq> Some 4902
                    \<longrightarrow> error st' = None) \<and>
                 (\<not> list_ex (rejects p) calls \<longrightarrow> error st' = None)))"
proof (cases provider)
  case None
  then show ?thesis by (simp add: connect_def)
next
  case (Some p)
  then have obj: "objectErrors p" using assms by simp
  show ?thesis
    unfolding Some using obj
    by (auto simp: connect_def connect_try_def objectErrors_def typeError_def Let_def BASE_CHAIN_ID_def
             split: outcome.splits js_error.splits option.splits list.splits)
qed

text \<open>
  A declined account request is reported with the provider's message, a declined chain
  switch is not reported, a switch rejected with \<^verbatim>\<open>null\<close> is reported with the message
  of the \<^verbatim>\<open>TypeError\<close>, and a missing provider is reported.
\<close>

theorem connect_failure_reporting_witness:
  "snd (snd (connect (Some refusingProvider) idleWallet)) = Resolves () \<and>
   error (fst (connect (Some refusingProvider) idleWallet)) = Some ''User rejected the request.'' \<and>
   snd (snd (connect (Some decliningProvider) idleWallet)) = Resolves () \<and>
   error (fst (connect (Some decliningProvider) idleWallet)) = None \<and>
   snd (snd (connect (Some nullSwitchProvider) idleWallet)) = Resolves () \<and>
   error (fst (connect (Some nullSwitchProvider) idleWallet)) = Some (typeErrorMessage JsNull ''code'') \<and>
   error (fst (connect None idleWallet)) = Some ''No wallet found. Open in a crypto-enabled browser.''"
proof -
  have refusing: "\<forall>p. Some refusingProvider = Some p \<longrightarrow> objectErrors p"
    by (simp add: objectErrors_def refusingProvider_def)
  have declining: "\<forall>p. Some decliningProvider = Some p \<longrightarrow> objectErrors p"
    by (simp add: objectErrors_def decliningProvider_def)
  have nullSwitch: "\<forall>p. Some nullSwitchProvider = Some p \<longrightarrow> objectErrors p"
    by (simp add: objectErrors_def nullSwitchProvider_def)
  have none: "\<forall>p. (None :: provider option) = Some p \<longrightarrow> objectErrors p"
    by simp
  have calls_refusing: "fst (snd (connect (Some refusingProvider) idleWallet)) = [Eth_requestAccounts]"
    by (simp add: connect_def connect_try_def refusingProvider_def)
  have calls_declining: "fst (snd (connect (Some decliningProvider) idleWallet))
      = [Eth_requestAccounts, Eth_chainId, Wallet_switchEthereumChain BASE_CHAIN_ID]"
    by (simp add: connect_def connect_try_def decliningProvider_def BASE_CHAIN_ID_def Let_def)
  have calls_nullSwitch: "fst (snd (connect (Some nullSwitchProvider) idleWallet))
      = [Eth_requestAccounts, Eth_chainId, Wallet_switchEthereumChain BASE_CHAIN_ID]"
    by (simp add: connect_def connect_try_def nullSwitchProvider_def typeError_def BASE_CHAIN_ID_def Let_def)
  have a: "snd (snd (connect (Some refusingProvider) idleWallet)) = Resolves () \<and>
      error (fst (connect (Some refusingProvider) idleWallet)) = Some ''User rejected the request.''"
    using connect_failure_reporting [OF refusing, of idleWallet] calls_refusing
    by (auto simp: refusingProvider_def split: prod.splits)
  have b: "snd (snd (connect (Some decliningProvider) idleWallet)) = Resolves () \<and>
      error (fst (connect (Some decliningProvider) idleWallet)) = None"
    using connect_failure_reporting [OF declining, of idleWallet] calls_declining
    by (auto simp: decliningProvider_def split: prod.splits)
  have c: "snd (snd (connect (Some nullSwitchProvider) idleWallet)) = Resolves () \<and>
      error (fst (connect (Some nullSwitchProvider) idleWallet)) = Some (typeErrorMessage JsNull ''code'')"
    using connect_failure_reporting [OF nullSwitch, of idleWallet] calls_nullSwitch
    by (auto simp: nullSwitchProvider_def split: prod.splits)
  have d: "error (fst (connect None idleWallet)) = Some ''No wallet found. Open in a crypto-enabled browser.''"
    using connect_failure_reporting [OF none, of idleWallet]
    by (auto split: prod.splits)
  show ?thesis using a b c d by simp
qed

text \<open>
  C9.  \<^verbatim>\<open>disconnect\<close> sets the stored address to \<^verbatim>\<open>null\<close>, sends no request to the
  provider and leaves \<^verbatim>\<open>isConnecting\<close> and \<^verbatim>\<open>error\<close> as they were.
\<close>

theorem disconnect_clears_address:
  "address (fst (disconnect st)) = None \<and>
   snd (disconnect st) = [] \<and>
   isConnecting (fst (disconnect st)) = isConnecting st \<and>
   error (fst (disconnect st)) = error st \<and>
   fst (disconnect st) = st\<lparr>address := None\<rparr>"
  by (simp add: disconnect_def)

section \<open>Claims about the owned-token fetch\<close>

lemma rest_loop_cases:
  assumes "fetchNFTsByOwner_loop (Suc fuel) server walletAddress n next results = (steps, ending)"
  obtains
    (failed) step e where
      "steps = [step]" "ending = Thrown e"
      "step_request step = restRequest walletAddress next"
      "(step_nfts step, step_next step) = rest_pageOf (server n (restRequest walletAddress next))"
      "step_nfts step = []" "step_next step = None" "step_count step = length results"
  | (last) step where
      "steps = [step]"
      "ending = Returned (results @ map (\<lambda>nft. newCanvasItem (nft_identifier nft)) (step_nfts step))"
      "step_request step = restRequest walletAddress next"
      "(step_nfts step, step_next step) = rest_pageOf (server n (restRequest walletAddress next))"
      "step_count step = length results + length (step_nfts step)"
      "\<not> continues 500 step"
  | (more) step steps' where
      "steps = step # steps'"
      "fetchNFTsByOwner_loop fuel server walletAddress (Suc n) (step_next step)
         (results @ map (\<lambda>nft. newCanvasItem (nft_identifier nft)) (step_nfts step)) = (steps', ending)"
      "step_request step = restRequest walletAddress next"
      "(step_nfts step, step_next step) = rest_pageOf (server n (restRequest walletAddress next))"
      "step_count step = length results + length (step_nfts step)"
      "continues 500 step"
proof (cases "server n (restRequest walletAddress next)")
  case (Threw e)
  show ?thesis
    by (rule failed [of _ e]) (use assms Threw in \<open>auto simp: Let_def\<close>)
next
  case (NotOk status)
  show ?thesis
    by (rule failed [of _ "ErrObj None (Some (''OpenSea NFTs error: '' @ showNat status))"])
       (use assms NotOk in \<open>auto simp: Let_def\<close>)
next
  case (Json data)
  define nfts where "nfts = (case page_nfts data of None \<Rightarrow> [] | Some xs \<Rightarrow> xs)"
  define results' where "results' = results @ map (\<lambda>nft. newCanvasItem (nft_identifier nft)) nfts"
  define step where "step = \<lparr>step_request = restRequest walletAddress next, step_nfts = nfts,
                      step_next = page_next data, step_count = length results'\<rparr>"
  show ?thesis
  proof (cases "truthy (page_next data) \<and> length results' < 500")
    case False
    show ?thesis
      by (rule last [of step])
         (use assms Json False in \<open>auto simp: Let_def step_def results'_def nfts_def continues_def\<close>)
  next
    case True
    obtain steps' where rec: "fetchNFTsByOwner_loop fuel server walletAddress (Suc n) (page_next data) results'
        = (steps', ending)" and steps: "steps = step # steps'"
      using assms Json True
      by (auto simp: Let_def step_def results'_def nfts_def split: prod.splits)
    show ?thesis
      by (rule more [of step steps'])
         (use rec steps Json True in \<open>auto simp: step_def results'_def nfts_def continues_def\<close>)
  qed
qed

lemma rest_loop_zero:
  assumes "fetchNFTsByOwner_loop 0 server walletAddress n next results = (steps, ending)"
  shows "steps = []" "ending = OutOfFuel"
  using assms by simp_all

lemma rest_loop_empty:
  assumes "fetchNFTsByOwner_loop fuel server walletAddress n next results = ([], ending)"
  shows "ending = OutOfFuel"
proof (cases fuel)
  case 0
  then show ?thesis using assms by simp
next
  case (Suc fuel')
  from assms [unfolded Suc] show ?thesis by (cases rule: rest_loop_cases) simp_all
qed

lemma rest_loop_requests:
  assumes "fetchNFTsByOwner_loop fuel server walletAddress n next results = (steps, ending)"
    and "s \<in> set steps"
  shows "req_limit (step_request s) = 200 \<and> req_collection (step_request s) = Some COLLECTION_SLUG \<and>
         req_account (step_request s) = walletAddress"
  using assms
proof (induction fuel arbitrary: n "next" results steps)
  case 0
  then show ?case by simp
next
  case (Suc fuel)
  from Suc.prems(1) show ?case
  proof (cases rule: rest_loop_cases)
    case (failed step e)
    then show ?thesis using Suc.prems(2) by (simp add: restRequest_def)
  next
    case (last step)
    then show ?thesis using Suc.prems(2) by (simp add: restRequest_def)
  next
    case (more step steps')
    then show ?thesis using Suc.prems(2) Suc.IH [OF more(2)] by (auto simp: restRequest_def)
  qed
qed

lemma rest_loop_continues:
  assumes "fetchNFTsByOwner_loop fuel server walletAddress n next results = (steps, ending)"
    and "k < length steps"
  shows "continues 500 (steps ! k) \<longleftrightarrow> (Suc k < length steps \<or> ending = OutOfFuel)"
  using assms
proof (induction fuel arbitrary: n "next" results steps k)
  case 0
  then show ?case by simp
next
  case (Suc fuel)
  from Suc.prems(1) show ?case
  proof (cases rule: rest_loop_cases)
    case (failed step e)
    then show ?thesis using Suc.prems(2) by (simp add: continues_def)
  next
    case (last step)
    then show ?thesis using Suc.prems(2) by simp
  next
    case (more step steps')
    show ?thesis
    proof (cases k)
      case 0
      then show ?thesis using more(1,6) rest_loop_empty [of fuel server walletAddress _ _ _ ending] more(2)
        by (cases steps') auto
    next
      case (Suc k')
      then have "k' < length steps'" using Suc.prems(2) more(1) by simp
      from Suc.IH [OF more(2) this] show ?thesis using Suc more(1) by simp
    qed
  qed
qed

lemma rest_loop_cursor:
  assumes "fetchNFTsByOwner_loop fuel server walletAddress n next results = (steps, ending)"
    and "Suc k < length steps"
  shows "req_next (step_request (steps ! Suc k)) = step_next (steps ! k)"
  using assms
proof (induction fuel arbitrary: n "next" results steps k)
  case 0
  then show ?case by simp
next
  case (Suc fuel)
  from Suc.prems(1) show ?case
  proof (cases rule: rest_loop_cases)
    case (failed step e)
    then show ?thesis using Suc.prems(2) by simp
  next
    case (last step)
    then show ?thesis using Suc.prems(2) by simp
  next
    case (more step steps')
    show ?thesis
    proof (cases k)
      case 0
      obtain fuel' where fuel: "fuel = Suc fuel'"
        using more(1,2) Suc.prems(2) by (cases fuel) auto
      have "step_request (steps' ! 0) = restRequest walletAddress (step_next step)"
        using more(2) [unfolded fuel] by (cases rule: rest_loop_cases) simp_all
      moreover have "truthy (step_next step)" using more(6) by (simp add: continues_def)
      ultimately show ?thesis using 0 more(1) by (simp add: restRequest_def)
    next
      case (Suc k')
      then have "Suc k' < length steps'" using Suc.prems(2) more(1) by simp
      from Suc.IH [OF more(2) this] show ?thesis using Suc more(1) by simp
    qed
  qed
qed

lemma rest_loop_server:
  assumes "fetchNFTsByOwner_loop fuel server walletAddress n next results = (steps, ending)"
    and "k < length steps"
  shows "(step_nfts (steps ! k), step_next (steps ! k)) = rest_pageOf (server (n + k) (step_request (steps ! k)))"
  using assms
proof (induction fuel arbitrary: n "next" results steps k)
  case 0
  then show ?case by simp
next
  case (Suc fuel)
  from Suc.prems(1) show ?case
  proof (cases rule: rest_loop_cases)
    case (failed step e)
    then show ?thesis using Suc.prems(2) by simp
  next
    case (last step)
    then show ?thesis using Suc.prems(2) by simp
  next
    case (more step steps')
    show ?thesis
    proof (cases k)
      case 0
      then show ?thesis using more by simp
    next
      case (Suc k')
      then have "k' < length steps'" using Suc.prems(2) more(1) by simp
      from Suc.IH [OF more(2) this] show ?thesis using Suc more(1) by simp
    qed
  qed
qed

lemma rest_loop_count:
  assumes "fetchNFTsByOwner_loop fuel server walletAddress n next results = (steps, ending)"
    and "k < length steps"
  shows "step_count (steps ! k) = length results + length (concat (map step_nfts (take (Suc k) steps)))"
  using assms
proof (induction fuel arbitrary: n "next" results steps k)
  case 0
  then show ?case by simp
next
  case (Suc fuel)
  from Suc.prems(1) show ?case
  proof (cases rule: rest_loop_cases)
    case (failed step e)
    then show ?thesis using Suc.prems(2) by simp
  next
    case (last step)
    then show ?thesis using Suc.prems(2) by simp
  next
    case (more step steps')
    show ?thesis
    proof (cases k)
      case 0
      then show ?thesis using more by simp
    next
      case (Suc k')
      then have "k' < length steps'" using Suc.prems(2) more(1) by simp
      from Suc.IH [OF more(2) this] show ?thesis using Suc more(1) by simp
    qed
  qed
qed

lemma rest_loop_returned:
  assumes "fetchNFTsByOwner_loop fuel server walletAddress n next results = (steps, Returned rs)"
  shows "rs = results @ map (\<lambda>nft. newCanvasItem (nft_identifier nft)) (concat (map step_nfts steps))"
  using assms
proof (induction fuel arbitrary: n "next" results steps)
  case 0
  then show ?case by simp
next
  case (Suc fuel)
  from Suc.prems(1) show ?case
  proof (cases rule: rest_loop_cases)
    case (failed step e)
    then show ?thesis by simp
  next
    case (last step)
    then show ?thesis by simp
  next
    case (more step steps')
    from Suc.IH [OF more(2)] show ?thesis using more(1) by simp
  qed
qed

lemma rest_loop_fuel:
  assumes "fetchNFTsByOwner_loop fuel server walletAddress n next results = (steps, ending)"
  shows "length steps \<le> fuel \<and> (ending = OutOfFuel \<longrightarrow> length steps = fuel)"
  using assms
proof (induction fuel arbitrary: n "next" results steps)
  case 0
  then show ?case by simp
next
  case (Suc fuel)
  from Suc.prems(1) show ?case
  proof (cases rule: rest_loop_cases)
    case (failed step e)
    then show ?thesis by simp
  next
    case (last step)
    then show ?thesis by simp
  next
    case (more step steps')
    from Suc.IH [OF more(2)] show ?thesis using more(1) by simp
  qed
qed


lemma sdk_loop_cases:
  assumes "fetchOwnedBasePaints_loop (Suc fuel) api walletAddress n cursor results = (steps, ending)"
  obtains
    (failed) step e where
      "steps = [step]" "ending = Thrown e"
      "step_request step = sdkRequest walletAddress cursor"
      "(step_nfts step, step_next step) = sdk_pageOf (api n (sdkRequest walletAddress cursor))"
      "step_nfts step = []" "step_next step = None" "step_count step = length results"
  | (last) step where
      "steps = [step]"
      "ending = Returned (results @ map (\<lambda>nft. newCanvasItem (nft_identifier nft))
                                        (filter isBasePaint (step_nfts step)))"
      "step_request step = sdkRequest walletAddress cursor"
      "(step_nfts step, step_next step) = sdk_pageOf (api n (sdkRequest walletAddress cursor))"
      "step_count step = length results + length (filter isBasePaint (step_nfts step))"
      "\<not> continues 200 step"
  | (more) step steps' where
      "steps = step # steps'"
      "fetchOwnedBasePaints_loop fuel api walletAddress (Suc n) (step_next step)
         (results @ map (\<lambda>nft. newCanvasItem (nft_identifier nft)) (filter isBasePaint (step_nfts step)))
         = (steps', ending)"
      "step_request step = sdkRequest walletAddress cursor"
      "(step_nfts step, step_next step) = sdk_pageOf (api n (sdkRequest walletAddress cursor))"
      "step_count step = length results + length (filter isBasePaint (step_nfts step))"
      "continues 200 step"
proof (cases "api n (sdkRequest walletAddress cursor)")
  case (Rejects e)
  show ?thesis
    by (rule failed [of _ e]) (use assms Rejects in \<open>auto simp: Let_def\<close>)
next
  case (Resolves page)
  show ?thesis
  proof (cases "page_nfts page")
    case None
    show ?thesis
      by (rule failed [of _ "ErrObj None (Some ''nfts is not iterable'')"])
         (use assms Resolves None in \<open>auto simp: Let_def\<close>)
  next
    case (Some nfts)
    define results' where
      "results' = results @ map (\<lambda>nft. newCanvasItem (nft_identifier nft)) (filter isBasePaint nfts)"
    define step where "step = \<lparr>step_request = sdkRequest walletAddress cursor, step_nfts = nfts,
                        step_next = page_next page, step_count = length results'\<rparr>"
    show ?thesis
    proof (cases "truthy (page_next page) \<and> length results' < 200")
      case False
      show ?thesis
        by (rule last [of step])
           (use assms Resolves Some False in
              \<open>auto simp: Let_def step_def results'_def continues_def split: if_splits\<close>)
    next
      case True
      obtain steps' where rec: "fetchOwnedBasePaints_loop fuel api walletAddress (Suc n) (page_next page) results'
          = (steps', ending)" and steps: "steps = step # steps'"
        using assms Resolves Some True
        by (auto simp: Let_def step_def results'_def split: prod.splits)
      show ?thesis
        by (rule more [of step steps'])
           (use rec steps Resolves Some True in \<open>auto simp: step_def results'_def continues_def\<close>)
    qed
  qed
qed

lemma sdk_loop_zero:
  assumes "fetchOwnedBasePaints_loop 0 api walletAddress n cursor results = (steps, ending)"
  shows "steps = []" "ending = OutOfFuel"
  using assms by simp_all

lemma sdk_loop_empty:
  assumes "fetchOwnedBasePaints_loop fuel api walletAddress n cursor results = ([], ending)"
  shows "ending = OutOfFuel"
proof (cases fuel)
  case 0
  then show ?thesis using assms by simp
next
  case (Suc fuel')
  from assms [unfolded Suc] show ?thesis by (cases rule: sdk_loop_cases) simp_all
qed

lemma sdk_loop_requests:
  assumes "fetchOwnedBasePaints_loop fuel api walletAddress n cursor results = (steps, ending)"
    and "s \<in> set steps"
  shows "req_limit (step_request s) = 50 \<and> req_collection (step_request s) = None \<and>
         req_account (step_request s) = walletAddress"
  using assms
proof (induction fuel arbitrary: n cursor results steps)
  case 0
  then show ?case by simp
next
  case (Suc fuel)
  from Suc.prems(1) show ?case
  proof (cases rule: sdk_loop_cases)
    case (failed step e)
    then show ?thesis using Suc.prems(2) by (simp add: sdkRequest_def)
  next
    case (last step)
    then show ?thesis using Suc.prems(2) by (simp add: sdkRequest_def)
  next
    case (more step steps')
    then show ?thesis using Suc.prems(2) Suc.IH [OF more(2)] by (auto simp: sdkRequest_def)
  qed
qed

lemma sdk_loop_continues:
  assumes "fetchOwnedBasePaints_loop fuel api walletAddress n cursor results = (steps, ending)"
    and "k < length steps"
  shows "continues 200 (steps ! k) \<longleftrightarrow> (Suc k < length steps \<or> ending = OutOfFuel)"
  using assms
proof (induction fuel arbitrary: n cursor results steps k)
  case 0
  then show ?case by simp
next
  case (Suc fuel)
  from Suc.prems(1) show ?case
  proof (cases rule: sdk_loop_cases)
    case (failed step e)
    then show ?thesis using Suc.prems(2) by (simp add: continues_def)
  next
    case (last step)
    then show ?thesis using Suc.prems(2) by simp
  next
    case (more step steps')
    show ?thesis
    proof (cases k)
      case 0
      then show ?thesis using more(1,6) sdk_loop_empty [of fuel api walletAddress _ _ _ ending] more(2)
        by (cases steps') auto
    next
      case (Suc k')
      then have "k' < length steps'" using Suc.prems(2) more(1) by simp
      from Suc.IH [OF more(2) this] show ?thesis using Suc more(1) by simp
    qed
  qed
qed

lemma sdk_loop_cursor:
  assumes "fetchOwnedBasePaints_loop fuel api walletAddress n cursor results = (steps, ending)"
    and "Suc k < length steps"
  shows "req_next (step_request (steps ! Suc k)) = step_next (steps ! k)"
  using assms
proof (induction fuel arbitrary: n cursor results steps k)
  case 0
  then show ?case by simp
next
  case (Suc fuel)
  from Suc.prems(1) show ?case
  proof (cases rule: sdk_loop_cases)
    case (failed step e)
    then show ?thesis using Suc.prems(2) by simp
  next
    case (last step)
    then show ?thesis using Suc.prems(2) by simp
  next
    case (more step steps')
    show ?thesis
    proof (cases k)
      case 0
      obtain fuel' where fuel: "fuel = Suc fuel'"
        using more(1,2) Suc.prems(2) by (cases fuel) auto
      have "step_request (steps' ! 0) = sdkRequest walletAddress (step_next step)"
        using more(2) [unfolded fuel] by (cases rule: sdk_loop_cases) simp_all
      moreover have "truthy (step_next step)" using more(6) by (simp add: continues_def)
      ultimately show ?thesis using 0 more(1) by (simp add: sdkRequest_def)
    next
      case (Suc k')
      then have "Suc k' < length steps'" using Suc.prems(2) more(1) by simp
      from Suc.IH [OF more(2) this] show ?thesis using Suc more(1) by simp
    qed
  qed
qed

lemma sdk_loop_api:
  assumes "fetchOwnedBasePaints_loop fuel api walletAddress n cursor results = (steps, ending)"
    and "k < length steps"
  shows "(step_nfts (steps ! k), step_next (steps ! k)) = sdk_pageOf (api (n + k) (step_request (steps ! k)))"
  using assms
proof (induction fuel arbitrary: n cursor results steps k)
  case 0
  then show ?case by simp
next
  case (Suc fuel)
  from Suc.prems(1) show ?case
  proof (cases rule: sdk_loop_cases)
    case (failed step e)
    then show ?thesis using Suc.prems(2) by simp
  next
    case (last step)
    then show ?thesis using Suc.prems(2) by simp
  next
    case (more step steps')
    show ?thesis
    proof (cases k)
      case 0
      then show ?thesis using more by simp
    next
      case (Suc k')
      then have "k' < length steps'" using Suc.prems(2) more(1) by simp
      from Suc.IH [OF more(2) this] show ?thesis using Suc more(1) by simp
    qed
  qed
qed

lemma sdk_loop_count:
  assumes "fetchOwnedBasePaints_loop fuel api walletAddress n cursor results = (steps, ending)"
    and "k < length steps"
  shows "step_count (steps ! k) = length results + length (filter isBasePaint (concat (map step_nfts (take (Suc k) steps))))"
  using assms
proof (induction fuel arbitrary: n cursor results steps k)
  case 0
  then show ?case by simp
next
  case (Suc fuel)
  from Suc.prems(1) show ?case
  proof (cases rule: sdk_loop_cases)
    case (failed step e)
    then show ?thesis using Suc.prems(2) by simp
  next
    case (last step)
    then show ?thesis using Suc.prems(2) by simp
  next
    case (more step steps')
    show ?thesis
    proof (cases k)
      case 0
      then show ?thesis using more by simp
    next
      case (Suc k')
      then have "k' < length steps'" using Suc.prems(2) more(1) by simp
      from Suc.IH [OF more(2) this] show ?thesis using Suc more(1) by simp
    qed
  qed
qed

lemma sdk_loop_returned:
  assumes "fetchOwnedBasePaints_loop fuel api walletAddress n cursor results = (steps, Returned rs)"
  shows "rs = results @ map (\<lambda>nft. newCanvasItem (nft_identifier nft)) (filter isBasePaint (concat (map step_nfts steps)))"
  using assms
proof (induction fuel arbitrary: n cursor results steps)
  case 0
  then show ?case by simp
next
  case (Suc fuel)
  from Suc.prems(1) show ?case
  proof (cases rule: sdk_loop_cases)
    case (failed step e)
    then show ?thesis by simp
  next
    case (last step)
    then show ?thesis by simp
  next
    case (more step steps')
    from Suc.IH [OF more(2)] show ?thesis using more(1) by simp
  qed
qed

lemma sdk_loop_fuel:
  assumes "fetchOwnedBasePaints_loop fuel api walletAddress n cursor results = (steps, ending)"
  shows "length steps \<le> fuel \<and> (ending = OutOfFuel \<longrightarrow> length steps = fuel)"
  using assms
proof (induction fuel arbitrary: n cursor results steps)
  case 0
  then show ?case by simp
next
  case (Suc fuel)
  from Suc.prems(1) show ?case
  proof (cases rule: sdk_loop_cases)
    case (failed step e)
    then show ?thesis by simp
  next
    case (last step)
    then show ?thesis by simp
  next
    case (more step steps')
    from Suc.IH [OF more(2)] show ?thesis using more(1) by simp
  qed
qed


lemma exampleServer_run:
  "fetchNFTsByOwner 5 exampleServer exampleAccount =
     ([\<lparr>step_request = restRequest exampleAccount None,
        step_nfts = [\<lparr>nft_identifier = ''701'', nft_contract = Some BASEPAINT_NFT_CONTRACT\<rparr>],
        step_next = Some ''page-2'', step_count = 1\<rparr>,
       \<lparr>step_request = restRequest exampleAccount (Some ''page-2''),
        step_nfts = [\<lparr>nft_identifier = ''703'', nft_contract = Some BASEPAINT_NFT_CONTRACT\<rparr>],
        step_next = None, step_count = 2\<rparr>],
      Returned [newCanvasItem ''701'', newCanvasItem ''703''])"
  by (simp add: fetchNFTsByOwner_def eval_nat_numeral exampleServer_def restRequest_def Let_def)

lemma exampleApi_run:
  "fetchOwnedBasePaints_loop 5 exampleApi exampleAccount 0 None [] =
     ([\<lparr>step_request = sdkRequest exampleAccount None,
        step_nfts = [\<lparr>nft_identifier = ''701'',
                       nft_contract = Some ''0xBA5E05CB26B78EDA3A2F8E3B3814726305DCAC83''\<rparr>,
                     \<lparr>nft_identifier = ''42'',
                       nft_contract = Some ''0x495f947276749ce646f68ac8c248420045cb7b5e''\<rparr>],
        step_next = Some ''page-2'', step_count = 1\<rparr>,
       \<lparr>step_request = sdkRequest exampleAccount (Some ''page-2''),
        step_nfts = [\<lparr>nft_identifier = ''703'', nft_contract = Some BASEPAINT_NFT_CONTRACT\<rparr>],
        step_next = None, step_count = 2\<rparr>],
      Returned [newCanvasItem ''701'', newCanvasItem ''703''])"
  by (simp add: eval_nat_numeral exampleApi_def sdkRequest_def Let_def isBasePaint_def toLowerCase_def
      BASEPAINT_NFT_CONTRACT_def)

lemma onlyBasePaint_filter:
  "onlyBasePaint steps (map (\<lambda>nft. newCanvasItem (nft_identifier nft))
                          (filter isBasePaint (concat (map step_nfts steps))))"
  unfolding onlyBasePaint_def list_all_iff list_ex_iff by auto

lemma onlyBasePaint_all:
  "list_all isBasePaint (concat (map step_nfts steps)) \<Longrightarrow>
     onlyBasePaint steps (map (\<lambda>nft. newCanvasItem (nft_identifier nft)) (concat (map step_nfts steps)))"
  unfolding onlyBasePaint_def list_all_iff list_ex_iff by auto

text \<open>
  C6 as stated fails in the REST variant: \<^verbatim>\<open>fetchNFTsByOwner\<close> turns every token of a
  response into an item without looking at its contract, so a token of another contract
  that the server sends is returned.
\<close>

theorem rest_fetch_returns_foreign_token:
  "\<not> collectionOnly (fetchNFTsByOwner 5 foreignServer exampleAccount)"
  by (simp add: collectionOnly_def onlyBasePaint_def fetchNFTsByOwner_def eval_nat_numeral
      foreignServer_def restRequest_def Let_def isBasePaint_def toLowerCase_def BASEPAINT_NFT_CONTRACT_def)

text \<open>
  C6, amended.  Both variants of the owned-token fetch page through the account with a
  fixed page size (200 in the REST variant, 50 in the SDK variant), each request after the
  first carrying the cursor of the response before it.  After an iteration a further
  request is sent exactly when the response carried a cursor and the results accumulated
  so far are below the cap (500 resp. 200); the second disjunct \<open>ending = OutOfFuel\<close> only
  says that the model was given no fuel for the further request.  In the SDK variant the
  returned list is made of those tokens of the responses whose contract address is the
  BasePaint contract, compared without regard to case, so it holds tokens of the tracked
  collection only.  In the REST variant every request asks the server for the collection
  \<^verbatim>\<open>basepaint\<close> and the returned list is made of all the tokens of the responses,
  unchecked; it holds tokens of the tracked collection only when the responses do.
\<close>

theorem owned_tokens_paging:
  "(case fetchNFTsByOwner fuel server walletAddress of
      (steps, ending) \<Rightarrow>
        (\<forall>s\<in>set steps. req_limit (step_request s) = 200 \<and>
                        req_collection (step_request s) = Some ''basepaint'' \<and>
                        req_account (step_request s) = walletAddress) \<and>
        (\<forall>k<length steps.
            (step_nfts (steps ! k), step_next (steps ! k)) = rest_pageOf (server k (step_request (steps ! k))) \<and>
            step_count (steps ! k) = length (concat (map step_nfts (take (Suc k) steps))) \<and>
            (continues 500 (steps ! k) \<longleftrightarrow> Suc k < length steps \<or> ending = OutOfFuel) \<and>
            (Suc k < length steps \<longrightarrow> req_next (step_request (steps ! Suc k)) = step_next (steps ! k))) \<and>
        (ending = OutOfFuel \<longrightarrow> length steps = fuel) \<and>
        (\<forall>rs. ending = Returned rs \<longrightarrow>
            rs = map (\<lambda>nft. newCanvasItem (nft_identifier nft)) (concat (map step_nfts steps)) \<and>
            (list_all isBasePaint (concat (map step_nfts steps)) \<longrightarrow> onlyBasePaint steps rs))) \<and>
   (case fetchOwnedBasePaints_loop fuel api walletAddress 0 None [] of
      (steps, ending) \<Rightarrow>
        (\<forall>s\<in>set steps. req_limit (step_request s) = 50 \<and>
                        req_account (step_request s) = walletAddress) \<and>
        (\<forall>k<length steps.
            (step_nfts (steps ! k), step_next (steps ! k)) = sdk_pageOf (api k (step_request (steps ! k))) \<and>
            step_count (steps ! k) = length (filter isBasePaint (concat (map step_nfts (take (Suc k) steps)))) \<and>
            (continues 200 (steps ! k) \<longleftrightarrow> Suc k < length steps \<or> ending = OutOfFuel) \<and>
            (Suc k < length steps \<longrightarrow> req_next (step_request (steps ! Suc k)) = step_next (steps ! k))) \<and>
        (ending = OutOfFuel \<longrightarrow> length steps = fuel) \<and>
        (\<forall>rs. ending = Returned rs \<longrightarrow>
            rs = map (\<lambda>nft. newCanvasItem (nft_identifier nft))
                   (filter isBasePaint (concat (map step_nfts steps))) \<and>
            onlyBasePaint steps rs \<and>
            (\<forall>item\<in>set rs. \<exists>s\<in>set steps. \<exists>nft\<in>set (step_nfts s).
                item = newCanvasItem (nft_identifier nft) \<and>
                map_option toLowerCase (nft_contract nft) = Some (toLowerCase BASEPAINT_NFT_CONTRACT)))) \<and>
   collectionOnly (fetchOwnedBasePaints_loop fuel api walletAddress 0 None [])"
proof -
  obtain steps ending where rest: "fetchNFTsByOwner_loop fuel server walletAddress 0 None [] = (steps, ending)"
    by (cases "fetchNFTsByOwner_loop fuel server walletAddress 0 None []") auto
  obtain steps' ending' where sdk: "fetchOwnedBasePaints_loop fuel api walletAddress 0 None [] = (steps', ending')"
    by (cases "fetchOwnedBasePaints_loop fuel api walletAddress 0 None []") auto
  have r1: "\<forall>s\<in>set steps. req_limit (step_request s) = 200 \<and>
                        req_collection (step_request s) = Some ''basepaint'' \<and>
                        req_account (step_request s) = walletAddress"
    using rest_loop_requests [OF rest] by (simp add: COLLECTION_SLUG_def)
  have r2: "(step_nfts (steps ! k), step_next (steps ! k)) = rest_pageOf (server k (step_request (steps ! k))) \<and>
            step_count (steps ! k) = length (concat (map step_nfts (take (Suc k) steps))) \<and>
            (continues 500 (steps ! k) \<longleftrightarrow> Suc k < length steps \<or> ending = OutOfFuel) \<and>
            (Suc k < length steps \<longrightarrow> req_next (step_request (steps ! Suc k)) = step_next (steps ! k))"
    if "k < length steps" for k
    using rest_loop_server [OF rest that] rest_loop_count [OF rest that] rest_loop_continues [OF rest that]
      rest_loop_cursor [OF rest, of k]
    by simp
  have r3: "ending = OutOfFuel \<longrightarrow> length steps = fuel"
    using rest_loop_fuel [OF rest] by simp
  have r4: "rs = map (\<lambda>nft. newCanvasItem (nft_identifier nft)) (concat (map step_nfts steps)) \<and>
            (list_all isBasePaint (concat (map step_nfts steps)) \<longrightarrow> onlyBasePaint steps rs)"
    if "ending = Returned rs" for rs
  proof -
    have rs: "rs = map (\<lambda>nft. newCanvasItem (nft_identifier nft)) (concat (map step_nfts steps))"
      using rest_loop_returned [of fuel server walletAddress 0 None "[]" steps rs] rest that by simp
    then show ?thesis using onlyBasePaint_all [of steps] by simp
  qed
  have s1: "\<forall>s\<in>set steps'. req_limit (step_request s) = 50 \<and> req_account (step_request s) = walletAddress"
    using sdk_loop_requests [OF sdk] by simp
  have s2: "(step_nfts (steps' ! k), step_next (steps' ! k)) = sdk_pageOf (api k (step_request (steps' ! k))) \<and>
            step_count (steps' ! k) = length (filter isBasePaint (concat (map step_nfts (take (Suc k) steps')))) \<and>
            (continues 200 (steps' ! k) \<longleftrightarrow> Suc k < length steps' \<or> ending' = OutOfFuel) \<and>
            (Suc k < length steps' \<longrightarrow> req_next (step_request (steps' ! Suc k)) = step_next (steps' ! k))"
    if "k < length steps'" for k
    using sdk_loop_api [OF sdk that] sdk_loop_count [OF sdk that] sdk_loop_continues [OF sdk that]
      sdk_loop_cursor [OF sdk, of k]
    by simp
  have s3: "ending' = OutOfFuel \<longrightarrow> length steps' = fuel"
    using sdk_loop_fuel [OF sdk] by simp
  have s4: "rs = map (\<lambda>nft. newCanvasItem (nft_identifier nft))
                   (filter isBasePaint (concat (map step_nfts steps'))) \<and>
            onlyBasePaint steps' rs \<and>
            (\<forall>item\<in>set rs. \<exists>s\<in>set steps'. \<exists>nft\<in>set (step_nfts s).
                item = newCanvasItem (nft_identifier nft) \<and>
                map_option toLowerCase (nft_contract nft) = Some (toLowerCase BASEPAINT_NFT_CONTRACT))"
    if "ending' = Returned rs" for rs
  proof -
    have rs: "rs = map (\<lambda>nft. newCanvasItem (nft_identifier nft))
                   (filter isBasePaint (concat (map step_nfts steps')))"
      using sdk_loop_returned [of fuel api walletAddress 0 None "[]" steps' rs] sdk that by simp
    have only: "onlyBasePaint steps' rs"
      unfolding rs by (rule onlyBasePaint_filter)
    have lower: "map_option toLowerCase (nft_contract nft) = Some (toLowerCase BASEPAINT_NFT_CONTRACT)"
      if "isBasePaint nft" for nft
      using that by (auto simp: isBasePaint_def split: option.splits)
    have "\<exists>s\<in>set steps'. \<exists>nft\<in>set (step_nfts s).
                item = newCanvasItem (nft_identifier nft) \<and>
                map_option toLowerCase (nft_contract nft) = Some (toLowerCase BASEPAINT_NFT_CONTRACT)"
      if "item \<in> set rs" for item
    proof -
      from that obtain nft s where "item = newCanvasItem (nft_identifier nft)" "isBasePaint nft"
        "s \<in> set steps'" "nft \<in> set (step_nfts s)"
        unfolding rs by auto
      then show ?thesis using lower by blast
    qed
    then show ?thesis using rs only by blast
  qed
  have s5: "collectionOnly (steps', ending')"
    using s4 by (cases ending') (simp_all add: collectionOnly_def)
  show ?thesis
    unfolding fetchNFTsByOwner_def rest sdk prod.case
    using r1 r2 r3 r4 s1 s2 s3 s4 s5 by blast
qed

text \<open>
  The example account: the first page carries a cursor and the loop goes on, the second
  does not and the loop stops; the server's responses hold BasePaint tokens only, and so
  does the list that the REST variant returns.  The SDK variant counts one result after a
  first page of two tokens, one of them foreign, and returns BasePaint tokens only.
\<close>

theorem owned_tokens_paging_witness:
  "continues 500 (fst (fetchNFTsByOwner 5 exampleServer exampleAccount) ! 0) \<and>
   \<not> continues 500 (fst (fetchNFTsByOwner 5 exampleServer exampleAccount) ! 1) \<and>
   req_limit (step_request (fst (fetchNFTsByOwner 5 exampleServer exampleAccount) ! 1)) = 200 \<and>
   req_next (step_request (fst (fetchNFTsByOwner 5 exampleServer exampleAccount) ! 1)) = Some ''page-2'' \<and>
   onlyBasePaint (fst (fetchNFTsByOwner 5 exampleServer exampleAccount))
     [newCanvasItem ''701'', newCanvasItem ''703''] \<and>
   continues 200 (fst (fetchOwnedBasePaints_loop 5 exampleApi exampleAccount 0 None []) ! 0) \<and>
   req_limit (step_request (fst (fetchOwnedBasePaints_loop 5 exampleApi exampleAccount 0 None []) ! 1)) = 50 \<and>
   step_count (fst (fetchOwnedBasePaints_loop 5 exampleApi exampleAccount 0 None []) ! 0) = 1 \<and>
   onlyBasePaint (fst (fetchOwnedBasePaints_loop 5 exampleApi exampleAccount 0 None []))
     [newCanvasItem ''701'', newCanvasItem ''703''] \<and>
   collectionOnly (fetchOwnedBasePaints_loop 5 exampleApi exampleAccount 0 None [])"
proof -
  define steps where "steps = fst (fetchNFTsByOwner 5 exampleServer exampleAccount)"
  define ending where "ending = snd (fetchNFTsByOwner 5 exampleServer exampleAccount)"
  define steps' where "steps' = fst (fetchOwnedBasePaints_loop 5 exampleApi exampleAccount 0 None [])"
  define ending' where "ending' = snd (fetchOwnedBasePaints_loop 5 exampleApi exampleAccount 0 None [])"
  note claim = owned_tokens_paging [where fuel = 5 and server = exampleServer
      and walletAddress = exampleAccount and api = exampleApi,
      unfolded case_prod_beta, folded steps_def ending_def steps'_def ending'_def]
  have len: "length steps = 2" and returned: "ending \<noteq> OutOfFuel"
    and ended: "ending = Returned [newCanvasItem ''701'', newCanvasItem ''703'']"
    and second: "steps ! 1 \<in> set steps"
    and next1: "step_next (steps ! 0) = Some ''page-2''"
    and nfts: "concat (map step_nfts steps)
        = [\<lparr>nft_identifier = ''701'', nft_contract = Some BASEPAINT_NFT_CONTRACT\<rparr>,
           \<lparr>nft_identifier = ''703'', nft_contract = Some BASEPAINT_NFT_CONTRACT\<rparr>]"
    by (simp_all add: steps_def ending_def exampleServer_run)
  have len': "length steps' = 2" and second': "steps' ! 1 \<in> set steps'"
    and ended': "ending' = Returned [newCanvasItem ''701'', newCanvasItem ''703'']"
    and nfts': "concat (map step_nfts (take (Suc 0) steps'))
        = [\<lparr>nft_identifier = ''701'', nft_contract = Some ''0xBA5E05CB26B78EDA3A2F8E3B3814726305DCAC83''\<rparr>,
           \<lparr>nft_identifier = ''42'', nft_contract = Some ''0x495f947276749ce646f68ac8c248420045cb7b5e''\<rparr>]"
    by (simp_all add: steps'_def ending'_def exampleApi_run)
  have rest_steps: "\<forall>k<length steps.
      (continues 500 (steps ! k) \<longleftrightarrow> Suc k < length steps \<or> ending = OutOfFuel) \<and>
      (Suc k < length steps \<longrightarrow> req_next (step_request (steps ! Suc k)) = step_next (steps ! k))"
    using claim by blast
  have rest_requests: "\<forall>s\<in>set steps. req_limit (step_request s) = 200"
    using claim by blast
  have rest_returned: "\<forall>rs. ending = Returned rs \<longrightarrow>
      (list_all isBasePaint (concat (map step_nfts steps)) \<longrightarrow> onlyBasePaint steps rs)"
    using claim by blast
  have sdk_steps: "\<forall>k<length steps'.
      step_count (steps' ! k) = length (filter isBasePaint (concat (map step_nfts (take (Suc k) steps')))) \<and>
      (continues 200 (steps' ! k) \<longleftrightarrow> Suc k < length steps' \<or> ending' = OutOfFuel)"
    using claim by blast
  have sdk_requests: "\<forall>s\<in>set steps'. req_limit (step_request s) = 50"
    using claim by blast
  have sdk_returned: "\<forall>rs. ending' = Returned rs \<longrightarrow> onlyBasePaint steps' rs"
    using claim by blast
  have sdk_only: "collectionOnly (fetchOwnedBasePaints_loop 5 exampleApi exampleAccount 0 None [])"
    using claim by blast
  have a: "continues 500 (steps ! 0)"
    using rest_steps [rule_format, of 0] len by simp
  have b: "\<not> continues 500 (steps ! 1)"
    using rest_steps [rule_format, of 1] len returned by simp
  have c: "req_limit (step_request (steps ! 1)) = 200"
    using rest_requests second by blast
  have d: "req_next (step_request (steps ! 1)) = Some ''page-2''"
    using rest_steps [rule_format, of 0] len next1 by simp
  have "list_all isBasePaint (concat (map step_nfts steps))"
    unfolding nfts by (simp add: isBasePaint_def)
  then have e: "onlyBasePaint steps [newCanvasItem ''701'', newCanvasItem ''703'']"
    using rest_returned [rule_format, OF ended] by simp
  have f: "continues 200 (steps' ! 0)"
    using sdk_steps [rule_format, of 0] len' by simp
  have g: "req_limit (step_request (steps' ! 1)) = 50"
    using sdk_requests second' by blast
  have h: "step_count (steps' ! 0) = 1"
    using sdk_steps [rule_format, of 0] len' nfts'
    by (simp add: isBasePaint_def toLowerCase_def BASEPAINT_NFT_CONTRACT_def)
  have i: "onlyBasePaint steps' [newCanvasItem ''701'', newCanvasItem ''703'']"
    using sdk_returned [rule_format, OF ended'] .
  show ?thesis
    unfolding steps_def [symmetric] steps'_def [symmetric] using a b c d e f g h i sdk_only by simp
qed


section \<open>Claims about the portfolio component\<close>

text \<open>
  C8.  When the user confirms "Accept" (the confirm button is rendered, enabled and bound
  to \<^verbatim>\<open>handleAcceptConfirm\<close>) on an item whose \<^verbatim>\<open>bestOfferOrderHash\<close> is absent, the
  handler shows the error toast "No valid offer found" and returns: no call reaches the
  wallet provider, the marketplace or the frame host, and the state of the component,
  its items included, is unchanged.
\<close>

theorem accept_without_order_hash:
  assumes "confirmButton isLoadingNFTs addr st = Some AcceptModal"
    and "activeModal st = Some modal"
    and "\<not> truthy (bestOfferOrderHash (m_item modal))"
  shows "clickConfirm env isLoadingNFTs addr st
           = (st, [ShowToast (Text ''No valid offer found'') ToastError]) \<and>
         handleAcceptConfirm env addr st
           = (st, [ShowToast (Text ''No valid offer found'') ToastError]) \<and>
         \<not> list_ex isExternalCall (snd (clickConfirm env isLoadingNFTs addr st)) \<and>
         items' (fst (clickConfirm env isLoadingNFTs addr st)) = items' st"
proof -
  have connected: "truthy addr"
    using assms(1) by (auto simp: confirmButton_def split: if_splits)
  have handler: "handleAcceptConfirm env addr st
      = (st, [ShowToast (Text ''No valid offer found'') ToastError])"
    using connected assms(2,3) by (simp add: handleAcceptConfirm_def Let_def)
  have click: "clickConfirm env isLoadingNFTs addr st = handleAcceptConfirm env addr st"
    using assms(1) by (simp add: clickConfirm_def)
  show ?thesis
    unfolding click handler by simp
qed

text \<open>The accept modal opened on token 703, which has no offer.\<close>

theorem accept_without_order_hash_witness:
  "clickConfirm exampleTrade False (Some ''0x1111111111111111111111111111111111111111'') acceptWithoutOffer
     = (acceptWithoutOffer, [ShowToast (Text ''No valid offer found'') ToastError])"
proof -
  have button: "confirmButton False (Some ''0x1111111111111111111111111111111111111111'') acceptWithoutOffer
      = Some AcceptModal"
    by (simp add: confirmButton_def acceptWithoutOffer_def exampleItems_def)
  have modal: "activeModal acceptWithoutOffer = Some \<lparr>m_type = AcceptModal, m_item = newCanvasItem ''703''\<rparr>"
    by (simp add: acceptWithoutOffer_def)
  have absent: "\<not> truthy (bestOfferOrderHash (m_item \<lparr>m_type = AcceptModal, m_item = newCanvasItem ''703''\<rparr>))"
    by (simp add: newCanvasItem_def Let_def)
  from accept_without_order_hash [OF button modal absent, of exampleTrade]
  show ?thesis by simp
qed

section \<open>Claims about the invariant of the data model\<close>

lemma newCanvasItem_invariant: "itemInvariant (newCanvasItem tokenId)"
  by (simp add: itemInvariant_def offerFieldsPaired_def listedHasPrice_def newCanvasItem_def Let_def)

lemma newCanvasItem_market:
  "bestOfferOrderHash (newCanvasItem tokenId) = None"
  "bestOfferProtocolAddress (newCanvasItem tokenId) = None"
  "isListed (newCanvasItem tokenId) = Some False"
  "listPrice (newCanvasItem tokenId) = None"
  "bestOffer (newCanvasItem tokenId) = 0"
  by (simp_all add: newCanvasItem_def Let_def)

lemma fetchBestListing_listed:
  "ld_isListed (fetchBestListing formatUnits res) \<Longrightarrow> ld_listPrice (fetchBestListing formatUnits res) \<noteq> None"
  using fetchBestListing_cases [of formatUnits res] by (auto simp: notListed_def)

lemma fetchBestOffer_paired:
  "pairedOffer res \<Longrightarrow>
     (od_orderHash (fetchBestOffer formatUnits res) = None)
       = (od_protocolAddress (fetchBestOffer formatUnits res) = None)"
  by (auto simp: pairedOffer_def fetchBestOffer_def fetchBestOffer_try_def noOffer_def Let_def
           split: response.splits option.splits list.splits sum.splits)

lemma fetchTokenMarketData_listed:
  "md_isListed (fetchTokenMarketData formatUnits m k tokenId)
     \<Longrightarrow> md_listPrice (fetchTokenMarketData formatUnits m k tokenId) \<noteq> None"
  by (auto simp: fetchTokenMarketData_def Let_def split: option.splits prod.splits if_splits)

lemma enrichItem_listedHasPrice: "listedHasPrice (enrichItem formatUnits v k item)"
proof (cases v)
  case (REST m)
  then show ?thesis
    using fetchBestListing_listed [of formatUnits "rest_listings m k (id' item)"]
    by (simp add: listedHasPrice_def enrichItem_def Let_def)
next
  case (SDK m)
  then show ?thesis
    using fetchTokenMarketData_listed [of formatUnits m k "id' item"]
    by (simp add: listedHasPrice_def enrichItem_def Let_def)
qed

lemma enrichItem_rest_paired:
  "pairedOffer (rest_offers m k (id' item)) \<Longrightarrow> offerFieldsPaired (enrichItem formatUnits (REST m) k item)"
  using fetchBestOffer_paired [of "rest_offers m k (id' item)" formatUnits]
  by (simp add: offerFieldsPaired_def enrichItem_def Let_def)

lemma enrichItem_sdk_protocol:
  "bestOfferProtocolAddress (enrichItem formatUnits (SDK m) k item) = bestOfferProtocolAddress item"
  by (simp add: enrichItem_def Let_def)

lemma rest_fetch_new_items:
  assumes "fetchOwnedBasePaints_rest fuel server walletAddress = Some owned"
    and "item \<in> set (owned_items owned)"
  shows "\<exists>tokenId. item = newCanvasItem tokenId"
proof -
  obtain steps ending where run: "fetchNFTsByOwner_loop fuel server walletAddress 0 None [] = (steps, ending)"
    by (cases "fetchNFTsByOwner_loop fuel server walletAddress 0 None []") auto
  show ?thesis
  proof (cases ending)
    case (Returned rs)
    then have "rs = map (\<lambda>nft. newCanvasItem (nft_identifier nft)) (concat (map step_nfts steps))"
      using rest_loop_returned [of fuel server walletAddress 0 None "[]" steps rs] run by simp
    moreover have "owned_items owned = rs"
      using assms(1) run Returned by (auto simp: fetchOwnedBasePaints_rest_def fetchNFTsByOwner_def)
    ultimately show ?thesis using assms(2) by auto
  next
    case (Thrown e)
    then have "owned_items owned = []"
      using assms(1) run by (auto simp: fetchOwnedBasePaints_rest_def fetchNFTsByOwner_def)
    then show ?thesis using assms(2) by simp
  next
    case OutOfFuel
    then show ?thesis
      using assms(1) run by (simp add: fetchOwnedBasePaints_rest_def fetchNFTsByOwner_def)
  qed
qed

lemma sdk_fetch_new_items:
  assumes "fetchOwnedBasePaints_sdk fuel buildFailure api walletAddress = Some owned"
    and "item \<in> set (owned_items owned)"
  shows "\<exists>tokenId. item = newCanvasItem tokenId"
proof (cases buildFailure)
  case (Some err)
  then have "owned_items owned = []"
    using assms(1) by (auto simp: fetchOwnedBasePaints_sdk_def)
  then show ?thesis using assms(2) by simp
next
  case None
  obtain steps ending where run: "fetchOwnedBasePaints_loop fuel api walletAddress 0 None [] = (steps, ending)"
    by (cases "fetchOwnedBasePaints_loop fuel api walletAddress 0 None []") auto
  show ?thesis
  proof (cases ending)
    case (Returned rs)
    then have "rs = map (\<lambda>nft. newCanvasItem (nft_identifier nft))
                      (filter isBasePaint (concat (map step_nfts steps)))"
      using sdk_loop_returned [of fuel api walletAddress 0 None "[]" steps rs] run by simp
    moreover have "owned_items owned = rs"
      using assms(1) run Returned None by (auto simp: fetchOwnedBasePaints_sdk_def)
    ultimately show ?thesis using assms(2) by auto
  next
    case (Thrown e)
    then have "owned_items owned = []"
      using assms(1) run None by (auto simp: fetchOwnedBasePaints_sdk_def)
    then show ?thesis using assms(2) by simp
  next
    case OutOfFuel
    then show ?thesis
      using assms(1) run None by (simp add: fetchOwnedBasePaints_sdk_def)
  qed
qed

lemma handleListConfirm_price:
  "items' (fst (handleListConfirm env addr st)) = items' st \<or>
   (\<exists>modal. activeModal st = Some modal \<and> 0 < the (toNumber env (listingPrice st)) \<and>
      items' (fst (handleListConfirm env addr st)) =
        map (\<lambda>it. if id' it = id' (m_item modal)
                  then it\<lparr>isListed := Some True, listPrice := Some (the (toNumber env (listingPrice st)))\<rparr>
                  else it) (items' st))"
  by (auto simp: handleListConfirm_def closeModal_def Let_def split: option.splits outcome.splits)

lemma handleListConfirm_items:
  "items' (fst (handleListConfirm env addr st)) = items' st \<or>
   (\<exists>modal price. activeModal st = Some modal \<and> 0 < price \<and>
      items' (fst (handleListConfirm env addr st)) =
        map (\<lambda>it. if id' it = id' (m_item modal)
                  then it\<lparr>isListed := Some True, listPrice := Some price\<rparr> else it) (items' st))"
  using handleListConfirm_price [of env addr st] by blast

lemma handleListConfirm_invariant:
  assumes "item \<in> set (items' (fst (handleListConfirm env addr st)))"
  shows "\<exists>old\<in>set (items' st).
           (item = old \<or> (\<exists>price. 0 < price \<and> item = old\<lparr>isListed := Some True, listPrice := Some price\<rparr>))"
  using handleListConfirm_items [of env addr st]
proof (elim disjE exE conjE)
  assume "items' (fst (handleListConfirm env addr st)) = items' st"
  then show ?thesis using assms by auto
next
  fix modal price
  assume price: "0 < (price :: number)"
  assume "items' (fst (handleListConfirm env addr st)) =
        map (\<lambda>it. if id' it = id' (m_item modal)
                  then it\<lparr>isListed := Some True, listPrice := Some price\<rparr> else it) (items' st)"
  then obtain old where "old \<in> set (items' st)"
    and "item = (if id' old = id' (m_item modal)
                 then old\<lparr>isListed := Some True, listPrice := Some price\<rparr> else old)"
    using assms by auto
  then show ?thesis using price by (cases "id' old = id' (m_item modal)") auto
qed




section \<open>Claims about the enrichment pipeline on a store\<close>

lemma preserves_refl [simp]: "preserves e h h"
  by (simp add: preserves_def)

lemma preserves_trans: "preserves e h h1 \<Longrightarrow> preserves e h1 h2 \<Longrightarrow> preserves e h h2"
  by (auto simp: preserves_def)

lemma preserves_newArray: "preserves e h (snd (newArray refs h))"
  by (simp add: preserves_def newArray_def nth_append)

lemma preserves_newObject: "preserves e h (snd (newObject item h))"
  by (simp add: preserves_def newObject_def nth_append)

lemma preserves_setElement: "preserves e h (setElement e k ref h)"
  by (simp add: preserves_def setElement_def)

lemma preserves_completeTask: "preserves e h (completeTask formatUnits v i batch e k h)"
proof -
  obtain ref h1 where alloc: "newObject (complete formatUnits v k (batch ! (k - i))
      (objects h ! (elements h e ! k))) h = (ref, h1)"
    by (cases "newObject (complete formatUnits v k (batch ! (k - i)) (objects h ! (elements h e ! k))) h") auto
  have "preserves e h h1"
    using preserves_newObject [of e h] alloc by (metis snd_conv)
  moreover have "preserves e h1 (setElement e k ref h1)"
    by (rule preserves_setElement)
  ultimately show ?thesis
    unfolding completeTask_def Let_def alloc prod.case by (rule preserves_trans)
qed

lemma preserves_runBatch_heap: "preserves e h (runBatch_heap formatUnits v i batch order e h)"
  unfolding runBatch_heap_def
proof (induction order arbitrary: h)
  case Nil
  then show ?case by simp
next
  case (Cons k order)
  have "preserves e h (completeTask formatUnits v i batch e k h)"
    by (rule preserves_completeTask)
  then show ?case
    using Cons.IH [of "completeTask formatUnits v i batch e k h"] by (auto intro: preserves_trans)
qed

lemma enrichLoop_heap_step:
  assumes "i < length (elements h enriched)"
  shows "enrichLoop_heap formatUnits v pick onProgress i enriched h =
     (let (batchAddr, h1) = newArray (slice i (i + BATCH v) (elements h enriched)) h;
          batch = itemsAt h1 batchAddr;
          tasks = map (\<lambda>idx. i + idx) [0..<length batch];
          order = completionOrder pick tasks;
          h2 = runBatch_heap formatUnits v i batch order enriched h1;
          (snapshot, h3) = (if onProgress then newArray (elements h2 enriched) h2 else (0, h2));
          rest = enrichLoop_heap formatUnits v pick onProgress (i + BATCH v) enriched h3
      in ((if onProgress then [snapshot] else []) @ fst rest, snd rest))"
  using assms by (subst enrichLoop_heap.simps) simp

lemma enrichLoop_heap_stop:
  assumes "\<not> i < length (elements h enriched)"
  shows "enrichLoop_heap formatUnits v pick onProgress i enriched h = ([], h)"
  using assms by (subst enrichLoop_heap.simps) simp

lemma enrichLoop_heap_frame:
  "preserves enriched h (snd (enrichLoop_heap formatUnits v pick onProgress i enriched h)) \<and>
   (\<forall>s\<in>set (fst (enrichLoop_heap formatUnits v pick onProgress i enriched h)).
       length (arrays h) \<le> s \<and>
       s < length (arrays (snd (enrichLoop_heap formatUnits v pick onProgress i enriched h)))) \<and>
   distinct (fst (enrichLoop_heap formatUnits v pick onProgress i enriched h))"
proof (induction formatUnits v pick onProgress i enriched h rule: enrichLoop_heap.induct)
  case (1 formatUnits v pick onProgress i enriched h)
  show ?case
  proof (cases "i < length (elements h enriched)")
    case False
    then show ?thesis by (simp add: enrichLoop_heap_stop)
  next
    case True
    define x where "x = newArray (slice i (i + BATCH v) (elements h enriched)) h"
    define batchAddr where "batchAddr = fst x"
    define h1 where "h1 = snd x"
    define batch where "batch = itemsAt h1 batchAddr"
    define tasks where "tasks = map (\<lambda>idx. i + idx) [0..<length batch]"
    define order where "order = completionOrder pick tasks"
    define h2 where "h2 = runBatch_heap formatUnits v i batch order enriched h1"
    define y where "y = (if onProgress then newArray (elements h2 enriched) h2 else (0, h2))"
    define snapshot where "snapshot = fst y"
    define h3 where "h3 = snd y"
    define rest where "rest = enrichLoop_heap formatUnits v pick onProgress (i + BATCH v) enriched h3"
    have xy: "(batchAddr, h1) = x" "(snapshot, h3) = y"
      by (simp_all add: batchAddr_def h1_def snapshot_def h3_def)
    have unfold: "enrichLoop_heap formatUnits v pick onProgress i enriched h
        = ((if onProgress then [snapshot] else []) @ fst rest, snd rest)"
      unfolding enrichLoop_heap_step [OF True] Let_def rest_def h3_def snapshot_def y_def h2_def
        order_def tasks_def batch_def h1_def batchAddr_def x_def
      by (simp add: case_prod_beta)
    have IH: "preserves enriched h3 (snd rest) \<and>
        (\<forall>s\<in>set (fst rest). length (arrays h3) \<le> s \<and> s < length (arrays (snd rest))) \<and>
        distinct (fst rest)"
      unfolding rest_def
      by (rule "1.IH" [OF True x_def xy(1) batch_def tasks_def order_def h2_def y_def xy(2)])
    have p1: "preserves enriched h h1"
      unfolding h1_def x_def by (rule preserves_newArray)
    have p2: "preserves enriched h1 h2"
      unfolding h2_def by (rule preserves_runBatch_heap)
    have p3: "preserves enriched h2 h3"
      unfolding h3_def y_def by (simp add: preserves_newArray)
    have p: "preserves enriched h h3"
      using p1 p2 p3 by (blast intro: preserves_trans)
    have grow: "length (arrays h) \<le> length (arrays h2)" "length (arrays h2) \<le> length (arrays h3)"
      "length (arrays h3) \<le> length (arrays (snd rest))"
      using p1 p2 p3 IH by (auto simp: preserves_def)
    have snap: "length (arrays h) \<le> snapshot \<and> snapshot < length (arrays h3)" if onProgress
      using that grow(1) by (simp add: snapshot_def h3_def y_def newArray_def)
    have later: "length (arrays h3) \<le> s \<and> s < length (arrays (snd rest))" if "s \<in> set (fst rest)" for s
      using IH that by blast
    have a: "preserves enriched h (snd rest)"
      using p IH by (blast intro: preserves_trans)
    have b: "length (arrays h) \<le> s \<and> s < length (arrays (snd rest))"
      if "s \<in> set ((if onProgress then [snapshot] else []) @ fst rest)" for s
    proof (cases "s \<in> set (fst rest)")
      case True
      then show ?thesis using later [OF True] grow by simp
    next
      case False
      then have "onProgress" "s = snapshot" using that by (auto split: if_splits)
      then show ?thesis using snap grow by simp
    qed
    have c: "distinct ((if onProgress then [snapshot] else []) @ fst rest)"
    proof (cases onProgress)
      case True
      have "snapshot \<notin> set (fst rest)"
        using later [of snapshot] snap [OF True] by auto
      then show ?thesis using True IH by simp
    next
      case False
      then show ?thesis using IH by simp
    qed
    show ?thesis
      unfolding unfold fst_conv snd_conv using a b c by blast
  qed
qed

lemma length_itemsAt [simp]: "length (itemsAt h a) = length (elements h a)"
  by (simp add: itemsAt_def)

lemma itemsAt_preserved:
  assumes "preserves e h h'" and "allocated a h" and "a \<noteq> e"
  shows "itemsAt h' a = itemsAt h a" and "allocated a h'"
proof -
  have a: "a < length (arrays h)" "a < length (arrays h')"
    using assms by (auto simp: allocated_def preserves_def)
  have el: "elements h' a = elements h a"
    using assms a by (simp add: elements_def preserves_def)
  show "itemsAt h' a = itemsAt h a"
    unfolding itemsAt_def el using assms by (auto simp: allocated_def preserves_def)
  show "allocated a h'"
    using assms a el by (auto simp: allocated_def preserves_def)
qed

lemma completeTask_itemsAt:
  assumes "allocated e h" and "k < length (elements h e)"
  shows "itemsAt (completeTask formatUnits v i batch e k h) e
           = (itemsAt h e)[k := complete formatUnits v k (batch ! (k - i)) (itemsAt h e ! k)]"
    and "allocated e (completeTask formatUnits v i batch e k h)"
proof -
  define item where "item = complete formatUnits v k (batch ! (k - i)) (objects h ! (elements h e ! k))"
  define h' where "h' = completeTask formatUnits v i batch e k h"
  have e: "e < length (arrays h)" and valid: "\<And>ref. ref \<in> set (elements h e) \<Longrightarrow> ref < length (objects h)"
    using assms(1) by (auto simp: allocated_def)
  have arrays': "arrays h' = (arrays h)[e := (elements h e)[k := length (objects h)]]"
    and objects': "objects h' = objects h @ [item]"
    by (simp_all add: h'_def completeTask_def Let_def newObject_def setElement_def elements_def item_def)
  have el: "elements h' e = (elements h e)[k := length (objects h)]"
    using e by (simp add: elements_def arrays')
  have "itemsAt h' e = (itemsAt h e)[k := item]"
  proof (rule nth_equalityI)
    show "length (itemsAt h' e) = length ((itemsAt h e)[k := item])"
      by (simp add: el)
  next
    fix j assume "j < length (itemsAt h' e)"
    then have j: "j < length (elements h e)" by (simp add: el)
    show "itemsAt h' e ! j = (itemsAt h e)[k := item] ! j"
    proof (cases "j = k")
      case True
      then show ?thesis using j by (simp add: itemsAt_def el objects')
    next
      case False
      have "elements h e ! j < length (objects h)" using valid j by simp
      then show ?thesis using False j by (simp add: itemsAt_def el objects' nth_append)
    qed
  qed
  moreover have "item = complete formatUnits v k (batch ! (k - i)) (itemsAt h e ! k)"
    using assms(2) by (simp add: item_def itemsAt_def)
  ultimately show "itemsAt (completeTask formatUnits v i batch e k h) e
           = (itemsAt h e)[k := complete formatUnits v k (batch ! (k - i)) (itemsAt h e ! k)]"
    by (simp add: h'_def)
  have "ref < length (objects h')" if "ref \<in> set (elements h' e)" for ref
  proof -
    from that have "ref = length (objects h) \<or> ref \<in> set (elements h e)"
      unfolding el using set_update_subset_insert [of "elements h e" k "length (objects h)"] by auto
    then show ?thesis using valid [of ref] by (auto simp: objects' less_Suc_eq)
  qed
  then show "allocated e (completeTask formatUnits v i batch e k h)"
    using e by (simp add: allocated_def h'_def [symmetric] arrays')
qed

lemma runBatch_heap_itemsAt:
  assumes "allocated e h" and "\<forall>k\<in>set order. k < length (elements h e)"
  shows "itemsAt (runBatch_heap formatUnits v i batch order e h) e
           = runBatch formatUnits v i batch order (itemsAt h e) \<and>
         allocated e (runBatch_heap formatUnits v i batch order e h)"
  using assms unfolding runBatch_heap_def runBatch_def
proof (induction order arbitrary: h)
  case Nil
  then show ?case by simp
next
  case (Cons k order)
  define h' where "h' = completeTask formatUnits v i batch e k h"
  have k: "k < length (elements h e)" using Cons.prems(2) by simp
  have step: "itemsAt h' e = (itemsAt h e)[k := complete formatUnits v k (batch ! (k - i)) (itemsAt h e ! k)]"
    and alloc: "allocated e h'"
    unfolding h'_def using completeTask_itemsAt [OF Cons.prems(1) k] by simp_all
  have "\<forall>k\<in>set order. k < length (elements h' e)"
    using Cons.prems(2) by (simp add: h'_def)
  from Cons.IH [OF alloc this] show ?case
    by (simp add: h'_def [symmetric] step)
qed

lemma itemsAt_newArray:
  assumes "allocated e h"
  shows "itemsAt (snd (newArray refs h)) e = itemsAt h e"
    and "allocated e (snd (newArray refs h))"
    and "itemsAt (snd (newArray refs h)) (fst (newArray refs h)) = map (\<lambda>ref. objects h ! ref) refs"
    and "fst (newArray refs h) \<noteq> e"
  using assms by (auto simp: allocated_def newArray_def itemsAt_def elements_def nth_append)

lemma slice_map: "slice i j (map f xs) = map f (slice i j xs)"
  by (simp add: slice_def take_map drop_map)

lemma enrichLoop_heap_agrees:
  assumes "allocated e h"
  shows "itemsAt (snd (enrichLoop_heap formatUnits v pick onProgress i e h)) e
           = snd (enrichLoop formatUnits v pick onProgress i (itemsAt h e)) \<and>
         map (itemsAt (snd (enrichLoop_heap formatUnits v pick onProgress i e h)))
             (fst (enrichLoop_heap formatUnits v pick onProgress i e h))
           = snapshots (fst (enrichLoop formatUnits v pick onProgress i (itemsAt h e)))"
  using assms
proof (induction formatUnits v pick onProgress i e h rule: enrichLoop_heap.induct)
  case (1 formatUnits v pick onProgress i enriched h)
  show ?case
  proof (cases "i < length (elements h enriched)")
    case False
    then show ?thesis by (simp add: enrichLoop_heap_stop enrichLoop_stop)
  next
    case True
    define x where "x = newArray (slice i (i + BATCH v) (elements h enriched)) h"
    define batchAddr where "batchAddr = fst x"
    define h1 where "h1 = snd x"
    define batch where "batch = itemsAt h1 batchAddr"
    define tasks where "tasks = map (\<lambda>idx. i + idx) [0..<length batch]"
    define order where "order = completionOrder pick tasks"
    define h2 where "h2 = runBatch_heap formatUnits v i batch order enriched h1"
    define y where "y = (if onProgress then newArray (elements h2 enriched) h2 else (0, h2))"
    define snapshot where "snapshot = fst y"
    define h3 where "h3 = snd y"
    define rest where "rest = enrichLoop_heap formatUnits v pick onProgress (i + BATCH v) enriched h3"
    have xy: "(batchAddr, h1) = x" "(snapshot, h3) = y"
      by (simp_all add: batchAddr_def h1_def snapshot_def h3_def)
    have unfold: "enrichLoop_heap formatUnits v pick onProgress i enriched h
        = ((if onProgress then [snapshot] else []) @ fst rest, snd rest)"
      unfolding enrichLoop_heap_step [OF True] Let_def rest_def h3_def snapshot_def y_def h2_def
        order_def tasks_def batch_def h1_def batchAddr_def x_def
      by (simp add: case_prod_beta)
    define items where "items = itemsAt h enriched"
    have True': "i < length items" using True by (simp add: items_def)
    have a1: "allocated enriched h1" and i1: "itemsAt h1 enriched = items"
      unfolding h1_def x_def items_def using itemsAt_newArray [OF "1.prems"] by simp_all
    have batch: "batch = slice i (i + BATCH v) items"
      unfolding batch_def batchAddr_def h1_def x_def items_def
      using itemsAt_newArray(3) [OF "1.prems"] by (simp add: itemsAt_def slice_map)
    have tasks: "tasks = [i..<min (i + BATCH v) (length items)]"
      unfolding tasks_def batch by (rule batch_tasks)
    have "\<forall>k\<in>set order. k < length (elements h1 enriched)"
      using i1 by (auto simp: order_def tasks simp flip: length_itemsAt)
    from runBatch_heap_itemsAt [OF a1 this]
    have i2: "itemsAt h2 enriched = runBatch formatUnits v i batch order items"
      and a2: "allocated enriched h2"
      by (simp_all add: h2_def i1)
    define written where "written = runBatch formatUnits v i batch order items"
    have a3: "allocated enriched h3" and i3: "itemsAt h3 enriched = written"
      unfolding h3_def y_def written_def using itemsAt_newArray [OF a2] i2 a2 by simp_all
    have pure: "enrichLoop formatUnits v pick onProgress i items
        = (map Start tasks @ map Done order @ (if onProgress then [Progress written] else [])
             @ fst (enrichLoop formatUnits v pick onProgress (i + BATCH v) written),
           snd (enrichLoop formatUnits v pick onProgress (i + BATCH v) written))"
      unfolding enrichLoop_step [OF True'] Let_def written_def order_def tasks_def batch
      by simp
    have IH: "itemsAt (snd rest) enriched = snd (enrichLoop formatUnits v pick onProgress (i + BATCH v) written) \<and>
        map (itemsAt (snd rest)) (fst rest)
          = snapshots (fst (enrichLoop formatUnits v pick onProgress (i + BATCH v) written))"
      unfolding rest_def i3 [symmetric]
      by (rule "1.IH" [OF True x_def xy(1) batch_def tasks_def order_def h2_def y_def xy(2) a3])
    have snap: "itemsAt (snd rest) snapshot = written" if onProgress
    proof -
      have s3: "itemsAt h3 snapshot = written" and ne: "snapshot \<noteq> enriched"
        and as: "allocated snapshot h3"
        using that a2 i2
        by (auto simp: snapshot_def h3_def y_def written_def newArray_def itemsAt_def elements_def
            allocated_def nth_append)
      have "preserves enriched h3 (snd rest)"
        unfolding rest_def using enrichLoop_heap_frame by blast
      from itemsAt_preserved(1) [OF this as ne] show ?thesis using s3 by simp
    qed
    show ?thesis
      unfolding unfold fst_conv snd_conv items_def [symmetric] pure
      using IH snap by simp
  qed
qed

lemma enrichWithMarketData_heap_agrees:
  assumes "allocated items h"
  shows "(case enrichWithMarketData_heap formatUnits v pick onProgress items h of
            (snaps, result, h') \<Rightarrow>
              itemsAt h' result = snd (enrichWithMarketData formatUnits v pick onProgress (itemsAt h items)) \<and>
              map (itemsAt h') snaps
                = snapshots (fst (enrichWithMarketData formatUnits v pick onProgress (itemsAt h items))))"
proof -
  define x where "x = newArray (elements h items) h"
  define enriched where "enriched = fst x"
  define h1 where "h1 = snd x"
  have alloc: "allocated enriched h1" and same: "itemsAt h1 enriched = itemsAt h items"
    using assms
    by (auto simp: enriched_def h1_def x_def newArray_def allocated_def itemsAt_def elements_def nth_append)
  from enrichLoop_heap_agrees [OF alloc, of formatUnits v pick onProgress 0]
  show ?thesis
    unfolding enrichWithMarketData_heap_def enrichWithMarketData_def Let_def
      x_def [symmetric] case_prod_beta enriched_def [symmetric] h1_def [symmetric] same
    by simp
qed

lemma exampleHeap_snapshots:
  "fst (enrichWithMarketData_heap decimalUnits (REST exampleMarket) firstPending True 0 exampleHeap) = [3]"
  by (simp add: enrichWithMarketData_heap_def exampleHeap_def newArray_def elements_def
      enrichLoop_heap.simps slice_def itemsAt_def runBatch_heap_def completeTask_def newObject_def
      setElement_def completionOrder.simps upt_rec Let_def exampleItems_def firstPending_def)

text \<open>
  C10.  \<^verbatim>\<open>enrichWithMarketData\<close> does not mutate its input.  For an input array allocated
  at \<open>items\<close>: after the call the array has the elements it had, every object that
  existed before the call is unchanged (the code only allocates objects), and so is every
  other array that existed before.  Every snapshot handed to the callback is an array
  allocated during the call, different from the input, from the returned array and from
  the other snapshots; the returned array is allocated during the call as well.  When the
  input array refers to allocated objects, the items read through the returned array and
  through the snapshots are those of the model on values.
\<close>

theorem enrich_leaves_input_untouched:
  assumes "items < length (arrays h)"
  shows "(case enrichWithMarketData_heap formatUnits v pick onProgress items h of
            (snaps, result, h') \<Rightarrow>
              elements h' items = elements h items \<and>
              (\<forall>ref<length (objects h). objects h' ! ref = objects h ! ref) \<and>
              (\<forall>a<length (arrays h). elements h' a = elements h a) \<and>
              (\<forall>s\<in>set snaps. length (arrays h) \<le> s \<and> s < length (arrays h') \<and>
                              s \<noteq> items \<and> s \<noteq> result) \<and>
              distinct snaps \<and>
              length (arrays h) \<le> result \<and> result \<noteq> items \<and>
              (allocated items h \<longrightarrow>
                 itemsAt h' items = itemsAt h items \<and>
                 itemsAt h' result
                   = snd (enrichWithMarketData formatUnits v pick onProgress (itemsAt h items)) \<and>
                 map (itemsAt h') snaps
                   = snapshots (fst (enrichWithMarketData formatUnits v pick onProgress (itemsAt h items)))))"
proof -
  define x where "x = newArray (elements h items) h"
  define enriched where "enriched = fst x"
  define h1 where "h1 = snd x"
  define run where "run = enrichLoop_heap formatUnits v pick onProgress 0 enriched h1"
  have unfold: "enrichWithMarketData_heap formatUnits v pick onProgress items h = (fst run, enriched, snd run)"
    by (simp add: enrichWithMarketData_heap_def Let_def case_prod_beta run_def h1_def enriched_def x_def)
  have enriched: "enriched = length (arrays h)" and len1: "length (arrays h1) = Suc (length (arrays h))"
    by (simp_all add: enriched_def h1_def x_def newArray_def)
  have p1: "preserves enriched h h1"
    unfolding h1_def x_def by (rule preserves_newArray)
  have loop: "preserves enriched h1 (snd run)"
    and snaps: "\<And>s. s \<in> set (fst run) \<Longrightarrow> length (arrays h1) \<le> s \<and> s < length (arrays (snd run))"
    and dist: "distinct (fst run)"
    unfolding run_def using enrichLoop_heap_frame [of enriched h1 formatUnits v pick onProgress 0] by blast+
  have p: "preserves enriched h (snd run)"
    using p1 loop by (rule preserves_trans)
  have arrays: "elements (snd run) a = elements h a" if "a < length (arrays h)" for a
    using p that enriched by (auto simp: preserves_def elements_def)
  have objs: "objects (snd run) ! ref = objects h ! ref" if "ref < length (objects h)" for ref
    using p that by (simp add: preserves_def)
  have fresh: "length (arrays h) \<le> s \<and> s < length (arrays (snd run)) \<and> s \<noteq> items \<and> s \<noteq> enriched"
    if "s \<in> set (fst run)" for s
    using snaps [OF that] len1 enriched assms by simp
  have agree: "itemsAt (snd run) items = itemsAt h items \<and>
      itemsAt (snd run) enriched
        = snd (enrichWithMarketData formatUnits v pick onProgress (itemsAt h items)) \<and>
      map (itemsAt (snd run)) (fst run)
        = snapshots (fst (enrichWithMarketData formatUnits v pick onProgress (itemsAt h items)))"
    if "allocated items h"
  proof -
    have "itemsAt (snd run) items = itemsAt h items"
      using itemsAt_preserved(1) [OF p that] enriched assms by simp
    then show ?thesis
      using enrichWithMarketData_heap_agrees [OF that, of formatUnits v pick onProgress]
      unfolding unfold by simp
  qed
  show ?thesis
    unfolding unfold prod.case
    using arrays [OF assms] arrays objs fresh dist enriched assms agree by auto
qed

text \<open>
  The two tokens at address 0: the array and its objects are as before, and the one
  snapshot is the fourth array of the store.
\<close>

theorem enrich_leaves_input_untouched_witness:
  "elements (snd (snd (enrichWithMarketData_heap decimalUnits (REST exampleMarket) firstPending True 0
                         exampleHeap))) 0 = [0, 1] \<and>
   objects (snd (snd (enrichWithMarketData_heap decimalUnits (REST exampleMarket) firstPending True 0
                        exampleHeap))) ! 1 = newCanvasItem ''703'' \<and>
   itemsAt (snd (snd (enrichWithMarketData_heap decimalUnits (REST exampleMarket) firstPending True 0
                        exampleHeap))) 0 = exampleItems \<and>
   fst (enrichWithMarketData_heap decimalUnits (REST exampleMarket) firstPending True 0 exampleHeap) = [3] \<and>
   3 < length (arrays (snd (snd (enrichWithMarketData_heap decimalUnits (REST exampleMarket) firstPending
                                   True 0 exampleHeap)))) \<and>
   1 \<le> fst (snd (enrichWithMarketData_heap decimalUnits (REST exampleMarket) firstPending True 0 exampleHeap))"
proof -
  define run where
    "run = enrichWithMarketData_heap decimalUnits (REST exampleMarket) firstPending True 0 exampleHeap"
  have array: "0 < length (arrays exampleHeap)"
    by (simp add: exampleHeap_def)
  note claim = enrich_leaves_input_untouched
    [OF array, of decimalUnits "REST exampleMarket" firstPending True,
     unfolded case_prod_beta, folded run_def]
  have alloc: "allocated 0 exampleHeap"
    by (simp add: allocated_def exampleHeap_def elements_def exampleItems_def)
  have snaps: "fst run = [3]"
    unfolding run_def by (rule exampleHeap_snapshots)
  have a: "elements (snd (snd run)) 0 = [0, 1]"
    using claim [THEN conjunct1] by (simp add: exampleHeap_def elements_def)
  have "objects (snd (snd run)) ! 1 = objects exampleHeap ! 1"
    using claim [THEN conjunct2, THEN conjunct1, rule_format, of 1]
    by (simp add: exampleHeap_def exampleItems_def)
  then have b: "objects (snd (snd run)) ! 1 = newCanvasItem ''703''"
    by (simp add: exampleHeap_def exampleItems_def)
  have "itemsAt (snd (snd run)) 0 = itemsAt exampleHeap 0"
    using claim alloc by blast
  then have c: "itemsAt (snd (snd run)) 0 = exampleItems"
    by (simp add: itemsAt_def exampleHeap_def elements_def exampleItems_def)
  have "\<forall>s\<in>set (fst run). length (arrays exampleHeap) \<le> s \<and> s < length (arrays (snd (snd run))) \<and>
                              s \<noteq> 0 \<and> s \<noteq> fst (snd run)"
    using claim by blast
  then have d: "3 < length (arrays (snd (snd run)))"
    by (simp add: snaps)
  have e: "1 \<le> fst (snd run)"
    using claim by (simp add: exampleHeap_def)
  show ?thesis
    unfolding run_def [symmetric] using a b c snaps d e by simp
qed

end
